theory Spec2Isabelle
  imports Complex_Main "HOL-Library.Multiset" "HOL-Library.Product_Lexorder"
begin

section \<open>Characters and strings of the extractor\<close>

text \<open>
  The extractor works on Python \<open>str\<close> values. A text is modelled as a \<open>string\<close>; a
  character stands for the code point with the same number, so the model covers the
  code points 0..255. On that range the classes below are the ones Python uses: the
  white space of \<open>\s\<close>, \<open>str.strip\<close>, \<open>str.split\<close>; the decimal digits of \<open>\d\<close>; the
  letters of \<open>str.isalpha\<close>; the upper-case and lower-case characters of \<open>str.isupper\<close>;
  the range \<open>[A-Z]\<close> of the date pattern.
\<close>

definition code_point :: "char \<Rightarrow> nat" where
  "code_point c = of_char c"

definition is_space :: "char \<Rightarrow> bool" where
  "is_space c =
     (let n = code_point c
      in (9 \<le> n \<and> n \<le> 13) \<or> (28 \<le> n \<and> n \<le> 32) \<or> n = 133 \<or> n = 160)"

definition is_digit :: "char \<Rightarrow> bool" where
  "is_digit c = (let n = code_point c in 48 \<le> n \<and> n \<le> 57)"

definition is_ascii_upper :: "char \<Rightarrow> bool" where
  "is_ascii_upper c = (let n = code_point c in 65 \<le> n \<and> n \<le> 90)"

definition is_alpha :: "char \<Rightarrow> bool" where
  "is_alpha c =
     (let n = code_point c
      in (65 \<le> n \<and> n \<le> 90) \<or> (97 \<le> n \<and> n \<le> 122) \<or> n = 170 \<or> n = 181 \<or> n = 186
         \<or> (192 \<le> n \<and> n \<le> 214) \<or> (216 \<le> n \<and> n \<le> 246) \<or> (248 \<le> n \<and> n \<le> 255))"

definition is_upper_char :: "char \<Rightarrow> bool" where
  "is_upper_char c =
     (let n = code_point c
      in (65 \<le> n \<and> n \<le> 90) \<or> (192 \<le> n \<and> n \<le> 214) \<or> (216 \<le> n \<and> n \<le> 222))"

definition is_lower_char :: "char \<Rightarrow> bool" where
  "is_lower_char c =
     (let n = code_point c
      in (97 \<le> n \<and> n \<le> 122) \<or> n = 170 \<or> n = 181 \<or> n = 186
         \<or> (223 \<le> n \<and> n \<le> 246) \<or> (248 \<le> n \<and> n \<le> 255))"

text \<open>
  \<open>text.isupper()\<close>: no lower-case character and at least one upper-case one (there is
  no title-case character below code point 256).
\<close>

definition isupper :: "string \<Rightarrow> bool" where
  "isupper s = (list_all (\<lambda>c. \<not> is_lower_char c) s \<and> list_ex is_upper_char s)"

text \<open>\<open>text.split()\<close>: the maximal runs of characters that are not white space.\<close>

function split_ws :: "string \<Rightarrow> string list" where
  "split_ws s =
     (case dropWhile is_space s of
        [] \<Rightarrow> []
      | c # cs \<Rightarrow> takeWhile (\<lambda>x. \<not> is_space x) (c # cs)
                 # split_ws (dropWhile (\<lambda>x. \<not> is_space x) (c # cs)))"
  by pat_completeness auto
termination
proof (relation "measure length")
  show "wf (measure length)" by simp
next
  fix s :: string and c cs
  assume a: "dropWhile is_space s = c # cs"
  have "\<not> is_space c"
    using a by (metis hd_dropWhile list.sel(1) list.distinct(1))
  then have "length (dropWhile (\<lambda>x. \<not> is_space x) (c # cs)) \<le> length cs"
    by (simp add: length_dropWhile_le)
  moreover have "length (c # cs) \<le> length s"
    using a length_dropWhile_le [of is_space s] by simp
  ultimately show "(dropWhile (\<lambda>x. \<not> is_space x) (c # cs), s) \<in> measure length"
    by simp
qed

subsection \<open>\<open>_clean_text\<close>\<close>

text \<open>
  \<open>re.sub(r"\s+", " ", text)\<close>: every maximal run of white space becomes one space.
\<close>

function sub_ws :: "string \<Rightarrow> string" where
  "sub_ws [] = []"
| "sub_ws (c # cs) =
     (if is_space c then CHR '' '' # sub_ws (dropWhile is_space cs) else c # sub_ws cs)"
  by pat_completeness auto
termination
  by (relation "measure length") (auto simp: length_dropWhile_le less_Suc_eq_le)

text \<open>\<open>text.strip()\<close>: white space removed at both ends.\<close>

definition strip :: "string \<Rightarrow> string" where
  "strip s = rev (dropWhile is_space (rev (dropWhile is_space s)))"

definition clean_text :: "string \<Rightarrow> string" where
  "clean_text t = strip (sub_ws t)"

text \<open>
  A cleaned text has no white space but single blanks between words. The predicate is
  used to show that cleaning twice changes nothing.
\<close>

fun ws_normal :: "string \<Rightarrow> bool" where
  "ws_normal [] = True"
| "ws_normal (c # cs) =
     ((\<not> is_space c \<or> (c = CHR '' '' \<and> (cs = [] \<or> \<not> is_space (hd cs)))) \<and> ws_normal cs)"

subsection \<open>The numeric heading pattern\<close>

text \<open>
  \<open>heading_pattern = re.compile(r"^(\d+(?:\.\d+)*)\s+")\<close>, used with \<open>match\<close>. The
  matcher below follows the pattern from left to right, each repetition taking as much
  as it can. Giving characters back never helps here: a digit run, and the whole group,
  can only be followed by a character that is neither a digit nor a dot.
\<close>

definition match_digits :: "string \<Rightarrow> (string \<times> string) option" where
  \<comment> \<open>\<open>\d+\<close>: the digits matched and the rest of the text\<close>
  "match_digits s =
     (let d = takeWhile is_digit s
      in if d = [] then None else Some (d, dropWhile is_digit s))"

function match_dot_groups :: "string \<Rightarrow> string \<times> string" where
  \<comment> \<open>\<open>(?:\.\d+)*\<close>: what the repetition matched and the rest of the text\<close>
  "match_dot_groups s =
     (case s of
        [] \<Rightarrow> ([], s)
      | c # cs \<Rightarrow>
          if c = CHR ''.'' then
            (case match_digits cs of
               None \<Rightarrow> ([], s)
             | Some (d, r) \<Rightarrow>
                 (case match_dot_groups r of (g, r') \<Rightarrow> (c # d @ g, r')))
          else ([], s))"
  by pat_completeness auto
termination
proof (relation "measure length")
  show "wf (measure length)" by simp
next
  fix s :: string and c cs x d r
  assume "s = c # cs" and "match_digits cs = Some x" and "(d, r) = x"
  then have "r = dropWhile is_digit cs"
    by (auto simp: match_digits_def Let_def split: if_splits)
  then have "length r \<le> length cs" by (simp add: length_dropWhile_le)
  with \<open>s = c # cs\<close> show "(r, s) \<in> measure length" by simp
qed

definition heading_pattern_match :: "string \<Rightarrow> string option" where
  \<comment> \<open>\<open>m.group(1)\<close> when \<open>heading_pattern.match(text)\<close> matches, else \<open>None\<close>\<close>
  "heading_pattern_match t =
     (case match_digits t of
        None \<Rightarrow> None
      | Some (d, r) \<Rightarrow>
          (case match_dot_groups r of
             (g, r') \<Rightarrow>
               (case r' of
                  [] \<Rightarrow> None
                | c # _ \<Rightarrow> if is_space c then Some (d @ g) else None)))"

definition num_level_of :: "string \<Rightarrow> int" where
  \<comment> \<open>\<open>num_level\<close>: 0, or \<open>m.group(1).count(".") + 1\<close>\<close>
  "num_level_of t =
     (case heading_pattern_match t of
        None \<Rightarrow> 0
      | Some g \<Rightarrow> int (count_list g (CHR ''.'')) + 1)"

text \<open>
  What the pattern means, written without an evaluation order: the group is a
  non-empty digit run followed by any number of (dot, non-empty digit run), and the
  text is the group, then at least one white-space character, then anything.
\<close>

inductive dot_groups :: "string \<Rightarrow> bool" where
  \<comment> \<open>\<open>(?:\.\d+)*\<close>\<close>
  none: "dot_groups []"
| more: "d \<noteq> [] \<Longrightarrow> list_all is_digit d \<Longrightarrow> dot_groups g
         \<Longrightarrow> dot_groups (CHR ''.'' # d @ g)"

definition dotted_number :: "string \<Rightarrow> bool" where
  \<comment> \<open>\<open>\d+(?:\.\d+)*\<close>\<close>
  "dotted_number g =
     (\<exists>d g'. g = d @ g' \<and> d \<noteq> [] \<and> list_all is_digit d \<and> dot_groups g')"

definition heading_pattern_matches :: "string \<Rightarrow> string \<Rightarrow> bool" where
  "heading_pattern_matches t g =
     (\<exists>ws rest. t = g @ ws @ rest \<and> dotted_number g \<and> ws \<noteq> [] \<and> list_all is_space ws)"

subsection \<open>\<open>_is_valid_heading\<close>\<close>

text \<open>
  \<open>re.fullmatch(r"\d{1,2}\s+[A-Z]{3,}\s+\d{2,4}", text)\<close>. Each run is followed by a
  character of another class, so each run is the longest one.
\<close>

definition date_like :: "string \<Rightarrow> bool" where
  "date_like s =
     (let d1 = takeWhile is_digit s; r1 = dropWhile is_digit s;
          w1 = takeWhile is_space r1; r2 = dropWhile is_space r1;
          up = takeWhile is_ascii_upper r2; r3 = dropWhile is_ascii_upper r2;
          w2 = takeWhile is_space r3; d2 = dropWhile is_space r3
      in 1 \<le> length d1 \<and> length d1 \<le> 2 \<and> w1 \<noteq> [] \<and> 3 \<le> length up \<and> w2 \<noteq> []
         \<and> 2 \<le> length d2 \<and> length d2 \<le> 4 \<and> list_all is_digit d2)"

text \<open>The same pattern as a decomposition of the whole text.\<close>

definition date_pattern_matches :: "string \<Rightarrow> bool" where
  "date_pattern_matches s =
     (\<exists>a b c d e. s = a @ b @ c @ d @ e
        \<and> list_all is_digit a \<and> 1 \<le> length a \<and> length a \<le> 2
        \<and> list_all is_space b \<and> b \<noteq> []
        \<and> list_all is_ascii_upper c \<and> 3 \<le> length c
        \<and> list_all is_space d \<and> d \<noteq> []
        \<and> list_all is_digit e \<and> 2 \<le> length e \<and> length e \<le> 4)"

definition all_digits :: "string \<Rightarrow> bool" where
  \<comment> \<open>\<open>re.fullmatch(r"\d+", text)\<close>\<close>
  "all_digits s = (s \<noteq> [] \<and> list_all is_digit s)"

definition is_valid_heading :: "string \<Rightarrow> bool" where
  "is_valid_heading t =
     (if date_like t then False
      else if all_digits t then False
      else list_ex is_alpha t)"

section \<open>The outline classifier\<close>

subsection \<open>Font sizes\<close>

text \<open>
  A font size is a Python \<open>float\<close>: a finite number (modelled as a real number, which
  is exact for equality and order), an infinity, or a not-a-number value. Python's
  containers (\<open>dict\<close> keys, \<open>list.index\<close>) compare with \<open>x is y or x == y\<close>. For a float
  that is not a NaN this is \<open>==\<close>; for a NaN, which is unequal to itself, it is object
  identity. So a NaN carries the identity of its float object: equality of the model
  is the comparison of the containers, and \<open>float_eq\<close> is the operator \<open>==\<close>.
\<close>

datatype pyfloat = Fin real | PInf | NInf | NaN nat

fun isnan :: "pyfloat \<Rightarrow> bool" where
  "isnan (NaN i) = True"
| "isnan x = False"

fun float_lt :: "pyfloat \<Rightarrow> pyfloat \<Rightarrow> bool" where
  \<comment> \<open>the operator \<open><\<close>\<close>
  "float_lt (Fin a) (Fin b) = (a < b)"
| "float_lt (Fin a) PInf = True"
| "float_lt NInf (Fin b) = True"
| "float_lt NInf PInf = True"
| "float_lt x y = False"

definition float_eq :: "pyfloat \<Rightarrow> pyfloat \<Rightarrow> bool" where
  \<comment> \<open>the operator \<open>==\<close>\<close>
  "float_eq x y = (\<not> isnan x \<and> x = y)"

definition float_le :: "pyfloat \<Rightarrow> pyfloat \<Rightarrow> bool" where
  \<comment> \<open>the operator \<open><=\<close>\<close>
  "float_le x y = (float_lt x y \<or> float_eq x y)"

text \<open>
  A segment is the tuple \<open>(text, page, size, bold)\<close>. Page numbers and
  \<open>heading_levels\<close> are Python integers.
\<close>

type_synonym segment = "string \<times> int \<times> pyfloat \<times> bool"

definition seg_text :: "segment \<Rightarrow> string" where
  "seg_text seg = (case seg of (t, p, sz, b) \<Rightarrow> t)"

definition seg_size :: "segment \<Rightarrow> pyfloat" where
  "seg_size seg = (case seg of (t, p, sz, b) \<Rightarrow> sz)"

definition no_nan :: "segment list \<Rightarrow> bool" where
  "no_nan flattened = list_all (\<lambda>seg. \<not> isnan (seg_size seg)) flattened"

record heading =
  h_level :: string
  h_text :: string
  h_page :: int

record outline =
  o_title :: string
  o_outline :: "heading list"

datatype error = IndexError

subsection \<open>\<open>_size_to_level\<close>\<close>

fun index_of :: "'a \<Rightarrow> 'a list \<Rightarrow> nat option" where
  \<comment> \<open>\<open>list.index\<close>; \<open>None\<close> stands for the \<open>ValueError\<close>\<close>
  "index_of x [] = None"
| "index_of x (y # ys) = (if y = x then Some 0 else map_option Suc (index_of x ys))"

definition size_to_level :: "pyfloat \<Rightarrow> pyfloat list \<Rightarrow> int" where
  "size_to_level sz level_sizes =
     (case index_of sz level_sizes of Some idx \<Rightarrow> int idx | None \<Rightarrow> - 1)"

subsection \<open>\<open>sorted\<close>\<close>

text \<open>
  \<open>sorted(keys, reverse=True)\<close> on floats compares with \<open><\<close> only. The model is the
  list sort of CPython for fewer than 64 elements: the run at the start of the list is
  found (it either never descends or descends strictly, and then it is reversed), and
  every further element is inserted into it at the place a binary search gives. Longer
  lists are sorted run by run and merged; on keys without a NaN, where \<open><\<close> is a total
  order, every such sort has the same result. With a NaN among the keys \<open><\<close> is no total
  order, and the result is what the comparisons happen to give.
\<close>

fun asc_run :: "pyfloat \<Rightarrow> pyfloat list \<Rightarrow> nat" where
  \<comment> \<open>how many of the next elements continue a run that does not descend\<close>
  "asc_run prev [] = 0"
| "asc_run prev (x # xs) = (if float_lt x prev then 0 else Suc (asc_run x xs))"

fun desc_run :: "pyfloat \<Rightarrow> pyfloat list \<Rightarrow> nat" where
  \<comment> \<open>how many of the next elements continue a strictly descending run\<close>
  "desc_run prev [] = 0"
| "desc_run prev (x # xs) = (if float_lt x prev then Suc (desc_run x xs) else 0)"

function bisect :: "pyfloat list \<Rightarrow> pyfloat \<Rightarrow> nat \<Rightarrow> nat \<Rightarrow> nat" where
  \<comment> \<open>the binary search of \<open>binarysort\<close>, between \<open>l\<close> and \<open>r \<le> length s\<close>\<close>
  "bisect s pivot l r =
     (if l < r then
        (let p = l + (r - l) div 2
         in if float_lt pivot (s ! p) then bisect s pivot l p else bisect s pivot (p + 1) r)
      else l)"
  by pat_completeness auto
termination
  by (relation "measure (\<lambda>(s, pivot, l, r). r - l)") auto

declare bisect.simps [simp del]

definition binary_insert :: "pyfloat list \<Rightarrow> pyfloat \<Rightarrow> pyfloat list" where
  "binary_insert s pivot =
     (let k = bisect s pivot 0 (length s) in take k s @ pivot # drop k s)"

definition list_sort :: "pyfloat list \<Rightarrow> pyfloat list" where
  \<comment> \<open>\<open>list.sort()\<close>\<close>
  "list_sort xs =
     (case xs of
        x0 # x1 # rest \<Rightarrow>
          (if float_lt x1 x0 then
             (let n = 2 + desc_run x1 rest
              in foldl binary_insert (rev (take n xs)) (drop n xs))
           else
             (let n = 2 + asc_run x1 rest
              in foldl binary_insert (take n xs) (drop n xs)))
      | _ \<Rightarrow> xs)"

definition sorted_reverse :: "pyfloat list \<Rightarrow> pyfloat list" where
  \<comment> \<open>\<open>sorted(xs, reverse=True)\<close>: reverse, sort, reverse, which keeps the sort stable\<close>
  "sorted_reverse xs = rev (list_sort (rev xs))"

text \<open>
  Used in the proofs only: a place in a linear order that agrees with \<open><\<close> on the floats
  that are not NaN.
\<close>

fun float_key :: "pyfloat \<Rightarrow> nat \<times> real" where
  "float_key NInf = (0, 0)"
| "float_key (Fin r) = (1, r)"
| "float_key PInf = (2, 0)"
| "float_key (NaN i) = (3, real i)"

subsection \<open>The table of level sizes\<close>

fun dict_append :: "(pyfloat \<times> string list) list \<Rightarrow> pyfloat \<Rightarrow> string \<Rightarrow> (pyfloat \<times> string list) list" where
  \<comment> \<open>\<open>d[k].append(v)\<close> on a \<open>defaultdict(list)\<close>; the keys stay in insertion order\<close>
  "dict_append [] k v = [(k, [v])]"
| "dict_append ((k', vs) # d) k v =
     (if k' = k then (k', vs @ [v]) # d else (k', vs) # dict_append d k v)"

definition size_to_lines :: "segment list \<Rightarrow> (pyfloat \<times> string list) list" where
  "size_to_lines flattened = foldl (\<lambda>d (t, p, sz, b). dict_append d sz t) [] flattened"

definition unique_sizes :: "segment list \<Rightarrow> pyfloat list" where
  \<comment> \<open>\<open>sorted(size_to_lines.keys(), reverse=True)\<close>\<close>
  "unique_sizes flattened = sorted_reverse (map fst (size_to_lines flattened))"

definition slice_to :: "'a list \<Rightarrow> int \<Rightarrow> 'a list" where
  \<comment> \<open>\<open>xs[:k]\<close>; a negative \<open>k\<close> counts from the end\<close>
  "slice_to xs k = (if 0 \<le> k then take (nat k) xs else take (length xs - nat (- k)) xs)"

definition level_sizes_of :: "int \<Rightarrow> segment list \<Rightarrow> pyfloat list" where
  "level_sizes_of heading_levels flattened = slice_to (unique_sizes flattened) (heading_levels + 1)"

definition strictly_decreasing :: "pyfloat list \<Rightarrow> bool" where
  \<comment> \<open>every element is \<open>>\<close> every later one\<close>
  "strictly_decreasing xs = sorted_wrt (\<lambda>a b. float_lt b a) xs"

subsection \<open>The classification pass\<close>

definition digit_char :: "nat \<Rightarrow> char" where
  "digit_char d = ''0123456789'' ! d"

function str_nat :: "nat \<Rightarrow> string" where
  "str_nat n = (if n < 10 then [digit_char n] else str_nat (n div 10) @ [digit_char (n mod 10)])"
  by pat_completeness auto
termination
  by (relation "measure id") auto

definition str_int :: "int \<Rightarrow> string" where
  "str_int i = (if i < 0 then CHR ''-'' # str_nat (nat (- i)) else str_nat (nat i))"

definition level_label :: "int \<Rightarrow> string" where
  \<comment> \<open>\<open>f"H{level}"\<close>\<close>
  "level_label l = CHR ''H'' # str_int l"

definition resolve_level :: "int \<Rightarrow> pyfloat list \<Rightarrow> segment \<Rightarrow> int" where
  "resolve_level heading_levels level_sizes seg =
     (case seg of (t, p, sz, b) \<Rightarrow>
        (let num_level = num_level_of t;
             lvl = size_to_level sz level_sizes
         in if 1 \<le> num_level \<and> num_level \<le> heading_levels then num_level else lvl))"

definition title_accepted :: "segment \<Rightarrow> bool" where
  \<comment> \<open>the test on a line of level 0\<close>
  "title_accepted seg =
     (case seg of (t, p, sz, b) \<Rightarrow> p \<le> 1 \<and> (b \<or> isupper t \<or> length (split_ws t) < 15))"

definition accepted_candidate :: "int \<Rightarrow> pyfloat list \<Rightarrow> segment \<Rightarrow> bool" where
  \<comment> \<open>a line that reaches the assignment to \<open>title_candidate\<close>\<close>
  "accepted_candidate heading_levels level_sizes seg =
     (resolve_level heading_levels level_sizes seg = 0 \<and> title_accepted seg)"

record scan_state =
  headings :: "heading list"
  title_candidate :: string

definition classify_step :: "int \<Rightarrow> pyfloat list \<Rightarrow> scan_state \<Rightarrow> segment \<Rightarrow> scan_state" where
  "classify_step heading_levels level_sizes st seg =
     (case seg of (t, p, sz, b) \<Rightarrow>
        (let lvl = resolve_level heading_levels level_sizes seg
         in if lvl = 0 then
              (if title_accepted seg
               then st\<lparr>title_candidate :=
                         (if title_candidate st \<noteq> [] then title_candidate st else t)\<rparr>
               else st)
            else if 1 \<le> lvl \<and> lvl \<le> heading_levels then
              (let clean = clean_text t
               in if is_valid_heading clean
                  then st\<lparr>headings := headings st
                             @ [\<lparr>h_level = level_label lvl, h_text = clean, h_page = p\<rparr>]\<rparr>
                  else st)
            else st))"

definition scan :: "int \<Rightarrow> pyfloat list \<Rightarrow> segment list \<Rightarrow> scan_state" where
  "scan heading_levels level_sizes flattened =
     foldl (classify_step heading_levels level_sizes)
       \<lparr>headings = [], title_candidate = []\<rparr> flattened"

text \<open>
  What one line adds to \<open>headings\<close>: nothing, or one heading. Used to describe the
  pass as a whole.
\<close>

definition emitted_heading :: "int \<Rightarrow> pyfloat list \<Rightarrow> segment \<Rightarrow> heading list" where
  "emitted_heading heading_levels level_sizes seg =
     (case seg of (t, p, sz, b) \<Rightarrow>
        (let lvl = resolve_level heading_levels level_sizes seg
         in if 1 \<le> lvl \<and> lvl \<le> heading_levels \<and> is_valid_heading (clean_text t)
            then [\<lparr>h_level = level_label lvl, h_text = clean_text t, h_page = p\<rparr>]
            else []))"

subsection \<open>Title fallback and deduplication\<close>

definition large_candidates :: "pyfloat \<Rightarrow> segment list \<Rightarrow> string list" where
  "large_candidates large_size flattened =
     map fst (filter (\<lambda>(t, p, s, b). float_eq s large_size) flattened)"

definition title_fallback :: "pyfloat list \<Rightarrow> segment list \<Rightarrow> error + string" where
  "title_fallback level_sizes flattened =
     (case level_sizes of
        [] \<Rightarrow> Inl IndexError
      | large_size # _ \<Rightarrow>
          Inr (case large_candidates large_size flattened of [] \<Rightarrow> [] | c # _ \<Rightarrow> c))"

definition dedup_step :: "heading list \<times> heading option \<Rightarrow> heading \<Rightarrow> heading list \<times> heading option" where
  "dedup_step acc h =
     (case acc of (deduped, last_h) \<Rightarrow>
        (if last_h = None \<or> Some h \<noteq> last_h then (deduped @ [h], Some h)
         else (deduped, Some h)))"

definition deduplicate :: "heading list \<Rightarrow> heading list" where
  "deduplicate hs = fst (foldl dedup_step ([], None) hs)"

subsection \<open>\<open>_process_segments\<close>\<close>

definition process_segments :: "int \<Rightarrow> segment list list \<Rightarrow> error + outline" where
  "process_segments heading_levels pages_data =
     (let flattened = concat pages_data
      in if flattened = [] then Inr \<lparr>o_title = [], o_outline = []\<rparr>
         else
           (let level_sizes = level_sizes_of heading_levels flattened;
                st = scan heading_levels level_sizes flattened
            in case (if title_candidate st = [] then title_fallback level_sizes flattened
                     else Inr (title_candidate st)) of
                 Inl e \<Rightarrow> Inl e
               | Inr t \<Rightarrow> Inr \<lparr>o_title = clean_text t, o_outline = deduplicate (headings st)\<rparr>))"

section \<open>Properties of the string operations\<close>

lemma dropWhile_hd_not: "dropWhile P xs \<noteq> [] \<Longrightarrow> \<not> P (hd (dropWhile P xs))"
  by (simp add: hd_dropWhile)

lemma rev_dropWhile_decomp: "rev (dropWhile P (rev w)) @ rev (takeWhile P (rev w)) = w"
proof -
  have "rev (takeWhile P (rev w) @ dropWhile P (rev w)) = w" by simp
  then show ?thesis by (simp only: rev_append)
qed

lemma sub_ws_hd: "s \<noteq> [] \<Longrightarrow> \<not> is_space (hd s) \<Longrightarrow> sub_ws s \<noteq> [] \<and> hd (sub_ws s) = hd s"
  by (cases s) auto

lemma ws_normal_sub_ws: "ws_normal (sub_ws s)"
proof (induction s rule: sub_ws.induct)
  case 1
  show ?case by simp
next
  case (2 c cs)
  show ?case
  proof (cases "is_space c")
    case True
    let ?r = "dropWhile is_space cs"
    have "sub_ws ?r = [] \<or> \<not> is_space (hd (sub_ws ?r))"
    proof (cases "?r = []")
      case True
      show ?thesis unfolding True by simp
    next
      case False
      then have "\<not> is_space (hd ?r)" by (rule dropWhile_hd_not)
      with False show ?thesis using sub_ws_hd [of ?r] by simp
    qed
    with True 2 show ?thesis by simp
  next
    case False
    with 2 show ?thesis by simp
  qed
qed

lemma sub_ws_normal_id: "ws_normal u \<Longrightarrow> sub_ws u = u"
proof (induction u)
  case Nil
  show ?case by simp
next
  case (Cons c cs)
  show ?case
  proof (cases "is_space c")
    case True
    with Cons.prems have c: "c = CHR '' ''" and h: "cs = [] \<or> \<not> is_space (hd cs)" by auto
    from h have "dropWhile is_space cs = cs" by (cases cs) auto
    with True c Cons show ?thesis by simp
  next
    case False
    with Cons show ?thesis by simp
  qed
qed

lemma ws_normal_prefix: "ws_normal (xs @ ys) \<Longrightarrow> ws_normal xs"
proof (induction xs)
  case Nil
  show ?case by simp
next
  case (Cons c cs)
  then show ?case by (cases cs) auto
qed

lemma ws_normal_dropWhile: "ws_normal xs \<Longrightarrow> ws_normal (dropWhile P xs)"
  by (induction xs) auto

lemma ws_normal_strip: "ws_normal u \<Longrightarrow> ws_normal (strip u)"
proof -
  assume "ws_normal u"
  then have n: "ws_normal (dropWhile is_space u)" by (rule ws_normal_dropWhile)
  let ?w = "dropWhile is_space u"
  have "ws_normal (rev (dropWhile is_space (rev ?w)) @ rev (takeWhile is_space (rev ?w)))"
    using n by (simp only: rev_dropWhile_decomp)
  then show ?thesis unfolding strip_def by (rule ws_normal_prefix)
qed

lemma strip_no_leading: "dropWhile is_space (strip v) = strip v"
proof -
  let ?w = "dropWhile is_space v"
  let ?p = "rev (dropWhile is_space (rev ?w))"
  show ?thesis
  proof (cases "?p = []")
    case True
    show ?thesis unfolding strip_def True by simp
  next
    case False
    have d: "?p @ rev (takeWhile is_space (rev ?w)) = ?w" by (rule rev_dropWhile_decomp)
    from False d have w: "?w \<noteq> []" by (metis append_is_Nil_conv)
    from False d have "hd ?p = hd ?w" by (metis hd_append2)
    moreover from w have "\<not> is_space (hd ?w)" by (rule dropWhile_hd_not)
    ultimately have "\<not> is_space (hd ?p)" by simp
    with False have "dropWhile is_space ?p = ?p" by (cases ?p) auto
    then show ?thesis by (simp add: strip_def)
  qed
qed

lemma strip_idem: "strip (strip v) = strip v"
proof -
  have "strip (strip v) = rev (dropWhile is_space (rev (strip v)))"
    unfolding strip_def [of "strip v"] by (simp only: strip_no_leading)
  also have "\<dots> = strip v" by (simp add: strip_def)
  finally show ?thesis .
qed

text \<open>
  Claim C8. Cleaning white space (every run of white space becomes one blank, both ends
  are trimmed) is idempotent: cleaning a cleaned string gives the same string. The text
  \<open>Intro   duction\<close> followed by a line feed is cleaned to \<open>Intro duction\<close>.
\<close>

theorem clean_text_idempotent:
  "clean_text (clean_text s) = clean_text s
   \<and> clean_text (''Intro   duction'' @ [CHR 0x0A]) = ''Intro duction''"
proof
  have "ws_normal (strip (sub_ws s))" by (rule ws_normal_strip [OF ws_normal_sub_ws])
  then have "sub_ws (strip (sub_ws s)) = strip (sub_ws s)" by (rule sub_ws_normal_id)
  then show "clean_text (clean_text s) = clean_text s"
    by (simp add: clean_text_def strip_idem)
next
  show "clean_text (''Intro   duction'' @ [CHR 0x0A]) = ''Intro duction''"
    by (simp add: clean_text_def strip_def is_space_def code_point_def)
qed

theorem clean_text_idempotent_witness:
  "clean_text (clean_text ''  1.  Scope of   work '') = ''1. Scope of work''"
  using clean_text_idempotent [of "''  1.  Scope of   work ''"]
  by (simp add: clean_text_def strip_def is_space_def code_point_def)

section \<open>Sorting\<close>

lemma float_lt_key:
  "\<not> isnan x \<Longrightarrow> \<not> isnan y \<Longrightarrow> float_lt x y \<longleftrightarrow> float_key x < float_key y"
  by (cases x; cases y) simp_all

lemma float_key_inj: "float_key x = float_key y \<Longrightarrow> x = y"
  by (cases x; cases y) simp_all

lemma float_lt_not_nan: "float_lt x y \<Longrightarrow> \<not> isnan x \<and> \<not> isnan y"
  by (cases x; cases y) simp_all

lemma float_le_key:
  "\<not> isnan x \<Longrightarrow> \<not> isnan y \<Longrightarrow> float_le x y \<longleftrightarrow> float_key x \<le> float_key y"
  by (cases x; cases y) (auto simp: float_le_def float_eq_def)

lemma mset_take_drop: "mset (take k s) + mset (drop k s) = mset s"
  by (metis append_take_drop_id mset_append)

lemma binary_insert_mset: "mset (binary_insert s pivot) = add_mset pivot (mset s)"
  by (simp add: binary_insert_def Let_def mset_take_drop)

lemma foldl_insert_mset: "mset (foldl binary_insert s xs) = mset s + mset xs"
  by (induction xs arbitrary: s) (simp_all add: binary_insert_mset)

lemma list_sort_short: "length xs < 2 \<Longrightarrow> list_sort xs = xs"
  by (cases xs rule: remdups_adj.cases) (simp_all add: list_sort_def)

lemma list_sort_long:
  assumes "xs = x0 # x1 # rest"
  shows "list_sort xs
     = (if float_lt x1 x0
        then foldl binary_insert (rev (take (2 + desc_run x1 rest) xs))
               (drop (2 + desc_run x1 rest) xs)
        else foldl binary_insert (take (2 + asc_run x1 rest) xs)
               (drop (2 + asc_run x1 rest) xs))"
  unfolding list_sort_def Let_def assms list.case by (rule refl)

lemma list_sort_cases:
  "list_sort xs = xs
   \<or> (\<exists>n. list_sort xs = foldl binary_insert (take n xs) (drop n xs))
   \<or> (\<exists>n. list_sort xs = foldl binary_insert (rev (take n xs)) (drop n xs))"
proof (cases xs rule: remdups_adj.cases)
  case (3 x0 x1 rest)
  show ?thesis unfolding list_sort_long [OF 3] by (cases "float_lt x1 x0") (simp_all only: if_True if_False, blast+)
qed (simp_all add: list_sort_def)

lemma list_sort_mset: "mset (list_sort xs) = mset xs"
proof -
  have a: "mset (foldl binary_insert (take n xs) (drop n xs)) = mset xs" for n
    by (simp only: foldl_insert_mset mset_take_drop)
  have b: "mset (foldl binary_insert (rev (take n xs)) (drop n xs)) = mset xs" for n
    by (simp only: foldl_insert_mset mset_rev mset_take_drop)
  from list_sort_cases [of xs] a b show ?thesis by (elim disjE exE) (simp_all only:)
qed

lemma sorted_reverse_mset: "mset (sorted_reverse xs) = mset xs"
  by (simp add: sorted_reverse_def list_sort_mset)


lemma asc_run_sorted:
  "\<forall>y\<in>set (x # xs). \<not> isnan y \<Longrightarrow>
   sorted (map float_key (x # take (asc_run x xs) xs))"
proof (induction xs arbitrary: x)
  case Nil
  show ?case by simp
next
  case (Cons y ys)
  show ?case
  proof (cases "float_lt y x")
    case True
    then show ?thesis by simp
  next
    case False
    from Cons.prems have n: "\<not> isnan x" "\<not> isnan y" by simp_all
    with False have "float_key x \<le> float_key y" by (simp add: float_lt_key)
    moreover have "sorted (map float_key (y # take (asc_run y ys) ys))"
      using Cons.prems by (intro Cons.IH) simp
    ultimately show ?thesis using False by (auto dest: order_trans)
  qed
qed

lemma desc_run_sorted:
  "sorted (map float_key (rev (x # take (desc_run x xs) xs)))
   \<and> (\<forall>z\<in>set (take (desc_run x xs) xs). float_key z < float_key x)"
proof (induction xs arbitrary: x)
  case Nil
  show ?case by simp
next
  case (Cons y ys)
  show ?case
  proof (cases "float_lt y x")
    case False
    then show ?thesis by simp
  next
    case True
    then have yx: "float_key y < float_key x"
      using float_lt_not_nan [OF True] by (simp add: float_lt_key)
    from Cons.IH [of y]
    have s: "sorted (map float_key (rev (y # take (desc_run y ys) ys)))"
      and b: "\<forall>z\<in>set (take (desc_run y ys) ys). float_key z < float_key y" by simp_all
    have "\<forall>z\<in>set (y # take (desc_run y ys) ys). float_key z < float_key x"
      using yx b by auto
    then have "\<forall>k\<in>set (map float_key (rev (y # take (desc_run y ys) ys))). k \<le> float_key x"
      by auto
    with s have "sorted (map float_key (rev (y # take (desc_run y ys) ys)) @ [float_key x])"
      by (simp add: sorted_append)
    with True yx b show ?thesis by auto
  qed
qed

lemma bisect_bounds:
  "sorted (map float_key s) \<Longrightarrow> \<forall>x\<in>set s. \<not> isnan x \<Longrightarrow> \<not> isnan pivot \<Longrightarrow>
   l \<le> r \<Longrightarrow> r \<le> length s \<Longrightarrow>
   \<forall>i<l. float_key (s ! i) \<le> float_key pivot \<Longrightarrow>
   \<forall>i. r \<le> i \<and> i < length s \<longrightarrow> float_key pivot < float_key (s ! i) \<Longrightarrow>
   l \<le> bisect s pivot l r \<and> bisect s pivot l r \<le> r
   \<and> (\<forall>i<bisect s pivot l r. float_key (s ! i) \<le> float_key pivot)
   \<and> (\<forall>i. bisect s pivot l r \<le> i \<and> i < length s
          \<longrightarrow> float_key pivot < float_key (s ! i))"
proof (induction s pivot l r rule: bisect.induct)
  case (1 s pivot l r)
  note srt = "1.prems"(1) and nf = "1.prems"(2) and npv = "1.prems"(3)
    and lr = "1.prems"(4) and rl = "1.prems"(5) and low = "1.prems"(6) and up = "1.prems"(7)
  show ?case
  proof (cases "l < r")
    case False
    then have e: "bisect s pivot l r = l" by (subst bisect.simps) simp
    from False lr have "l = r" by simp
    with low up show ?thesis unfolding e by simp
  next
    case True
    define p where "p = l + (r - l) div 2"
    from True have lp: "l \<le> p" and pr: "p < r" by (simp_all add: p_def)
    from pr rl have pl: "p < length s" by simp
    have mono: "i \<le> j \<Longrightarrow> j < length s \<Longrightarrow> float_key (s ! i) \<le> float_key (s ! j)" for i j
      using sorted_nth_mono [OF srt, of i j] by simp
    have np: "\<not> isnan (s ! p)" using nf pl by simp
    show ?thesis
    proof (cases "float_lt pivot (s ! p)")
      case lt: True
      then have k: "float_key pivot < float_key (s ! p)"
        using npv np by (simp add: float_lt_key)
      have up': "\<forall>i. p \<le> i \<and> i < length s \<longrightarrow> float_key pivot < float_key (s ! i)"
        using k mono by (meson less_le_trans)
      have e: "bisect s pivot l r = bisect s pivot l p"
        using True lt by (simp add: bisect.simps [of s pivot l r] p_def Let_def)
      have "l \<le> bisect s pivot l p \<and> bisect s pivot l p \<le> p
         \<and> (\<forall>i<bisect s pivot l p. float_key (s ! i) \<le> float_key pivot)
         \<and> (\<forall>i. bisect s pivot l p \<le> i \<and> i < length s
                \<longrightarrow> float_key pivot < float_key (s ! i))"
        using lt [unfolded p_def] srt nf npv lp [unfolded p_def] pl [unfolded p_def]
          low up' [unfolded p_def]
        unfolding p_def by (intro "1.IH"(1) [OF True refl]) simp_all
      with pr show ?thesis unfolding e by simp
    next
      case ge: False
      then have k: "float_key (s ! p) \<le> float_key pivot"
        using npv np by (simp add: float_lt_key)
      have low': "\<forall>i<p + 1. float_key (s ! i) \<le> float_key pivot"
        using k mono pl by (metis Suc_eq_plus1 less_Suc_eq_le order_trans)
      have e: "bisect s pivot l r = bisect s pivot (p + 1) r"
        using True ge by (simp add: bisect.simps [of s pivot l r] p_def Let_def)
      have "p + 1 \<le> bisect s pivot (p + 1) r \<and> bisect s pivot (p + 1) r \<le> r
         \<and> (\<forall>i<bisect s pivot (p + 1) r. float_key (s ! i) \<le> float_key pivot)
         \<and> (\<forall>i. bisect s pivot (p + 1) r \<le> i \<and> i < length s
                \<longrightarrow> float_key pivot < float_key (s ! i))"
        using ge [unfolded p_def] srt nf npv pr [unfolded p_def] rl low' [unfolded p_def] up
        unfolding p_def by (intro "1.IH"(2) [OF True refl]) simp_all
      with lp show ?thesis unfolding e by simp
    qed
  qed
qed


lemma binary_insert_sorted:
  assumes "sorted (map float_key s)" and "\<forall>x\<in>set s. \<not> isnan x" and "\<not> isnan pivot"
  shows "sorted (map float_key (binary_insert s pivot))"
proof -
  define k where "k = bisect s pivot 0 (length s)"
  have "0 \<le> k \<and> k \<le> length s
        \<and> (\<forall>i<k. float_key (s ! i) \<le> float_key pivot)
        \<and> (\<forall>i. k \<le> i \<and> i < length s \<longrightarrow> float_key pivot < float_key (s ! i))"
    unfolding k_def using assms by (intro bisect_bounds) auto
  then have kl: "k \<le> length s"
    and low: "\<forall>i<k. float_key (s ! i) \<le> float_key pivot"
    and up: "\<forall>i. k \<le> i \<and> i < length s \<longrightarrow> float_key pivot < float_key (s ! i)"
    by blast+
  have a: "\<forall>x\<in>set (take k s). float_key x \<le> float_key pivot"
  proof
    fix x assume "x \<in> set (take k s)"
    then obtain i where "i < length (take k s)" and "take k s ! i = x"
      by (auto simp: in_set_conv_nth)
    with low kl show "float_key x \<le> float_key pivot" by auto
  qed
  have b: "\<forall>x\<in>set (drop k s). float_key pivot \<le> float_key x"
  proof
    fix x assume "x \<in> set (drop k s)"
    then obtain i where i: "i < length (drop k s)" and x: "drop k s ! i = x"
      by (auto simp: in_set_conv_nth)
    from i have "k + i < length s" by simp
    with up have "float_key pivot < float_key (s ! (k + i))" by simp
    with x kl show "float_key pivot \<le> float_key x" by (simp add: less_imp_le)
  qed
  have t: "sorted (map float_key (take k s))" and d: "sorted (map float_key (drop k s))"
    using assms(1) by (simp_all add: take_map [symmetric] drop_map [symmetric] sorted_wrt_take sorted_wrt_drop)
  have c: "\<forall>x\<in>set (take k s). \<forall>y\<in>set (drop k s). float_key x \<le> float_key y"
    using a b by (meson order_trans)
  have "sorted (map float_key (take k s @ pivot # drop k s))"
    using t d a b c by (simp add: sorted_append)
  then show ?thesis by (simp add: binary_insert_def Let_def k_def)
qed

lemma binary_insert_set: "set (binary_insert s pivot) = insert pivot (set s)"
  using binary_insert_mset [of s pivot] by (metis mset_eq_setD set_mset_add_mset_insert set_mset_mset)

lemma foldl_insert_sorted:
  "sorted (map float_key s) \<Longrightarrow> \<forall>x\<in>set s \<union> set xs. \<not> isnan x \<Longrightarrow>
   sorted (map float_key (foldl binary_insert s xs))"
proof (induction xs arbitrary: s)
  case Nil
  then show ?case by simp
next
  case (Cons x xs)
  have "sorted (map float_key (binary_insert s x))"
    using Cons.prems by (intro binary_insert_sorted) simp_all
  moreover have "\<forall>y\<in>set (binary_insert s x) \<union> set xs. \<not> isnan y"
    using Cons.prems by (simp add: binary_insert_set)
  ultimately show ?case unfolding foldl_Cons by (rule Cons.IH)
qed

lemma list_sort_sorted:
  assumes "\<forall>x\<in>set xs. \<not> isnan x"
  shows "sorted (map float_key (list_sort xs))"
proof (cases xs rule: remdups_adj.cases)
  case 1
  then show ?thesis by (simp add: list_sort_def)
next
  case (2 x)
  then show ?thesis by (simp add: list_sort_def)
next
  case (3 x0 x1 rest)
  have nf: "\<forall>x\<in>set (take n xs) \<union> set (drop n xs). \<not> isnan x" for n
    using assms by (metis Un_iff in_set_dropD in_set_takeD)
  show ?thesis
  proof (cases "float_lt x1 x0")
    case True
    let ?n = "2 + desc_run x1 rest"
    have "take ?n xs = x0 # take (desc_run x0 (x1 # rest)) (x1 # rest)"
      using True by (simp add: 3)
    then have "sorted (map float_key (rev (take ?n xs)))"
      using desc_run_sorted [of x0 "x1 # rest"] by simp
    moreover have "\<forall>x\<in>set (rev (take ?n xs)) \<union> set (drop ?n xs). \<not> isnan x"
      using nf [of ?n] by simp
    ultimately have "sorted (map float_key (foldl binary_insert (rev (take ?n xs)) (drop ?n xs)))"
      by (rule foldl_insert_sorted)
    then show ?thesis unfolding list_sort_long [OF 3] using True by simp
  next
    case False
    let ?n = "2 + asc_run x1 rest"
    have "take ?n xs = x0 # take (asc_run x0 (x1 # rest)) (x1 # rest)"
      using False by (simp add: 3)
    moreover have "sorted (map float_key (x0 # take (asc_run x0 (x1 # rest)) (x1 # rest)))"
      using assms unfolding 3 by (rule asc_run_sorted)
    ultimately have "sorted (map float_key (take ?n xs))" by simp
    then have "sorted (map float_key (foldl binary_insert (take ?n xs) (drop ?n xs)))"
      using nf [of ?n] by (rule foldl_insert_sorted)
    then show ?thesis unfolding list_sort_long [OF 3] using False by simp
  qed
qed

lemma sorted_reverse_set: "set (sorted_reverse xs) = set xs"
  using sorted_reverse_mset [of xs] by (rule mset_eq_setD)

lemma sorted_reverse_length: "length (sorted_reverse xs) = length xs"
  using sorted_reverse_mset [of xs] by (rule mset_eq_length)

lemma sorted_reverse_distinct: "distinct (sorted_reverse xs) = distinct xs"
  using sorted_reverse_mset [of xs] by (rule mset_eq_imp_distinct_iff)

lemma descending_distinct_strict:
  "sorted (map float_key (rev ys)) \<Longrightarrow> distinct ys \<Longrightarrow> \<forall>x\<in>set ys. \<not> isnan x \<Longrightarrow>
   sorted_wrt (\<lambda>a b. float_lt b a) ys"
proof (induction ys)
  case Nil
  show ?case by simp
next
  case (Cons y ys)
  from Cons.prems(1) have s: "sorted (map float_key (rev ys))"
    and le: "\<forall>z\<in>set ys. float_key z \<le> float_key y"
    by (simp_all add: sorted_append)
  have "\<forall>z\<in>set ys. float_lt z y"
  proof
    fix z assume z: "z \<in> set ys"
    with Cons.prems(2) have "z \<noteq> y" by auto
    then have "float_key z \<noteq> float_key y" using float_key_inj by blast
    with le z have "float_key z < float_key y" by (simp add: less_le)
    with Cons.prems(3) z show "float_lt z y" by (simp add: float_lt_key)
  qed
  moreover have "sorted_wrt (\<lambda>a b. float_lt b a) ys"
    using s Cons.prems by (intro Cons.IH) simp_all
  ultimately show ?case by simp
qed

lemma sorted_reverse_descending:
  assumes "distinct xs" and "\<forall>x\<in>set xs. \<not> isnan x"
  shows "sorted_wrt (\<lambda>a b. float_lt b a) (sorted_reverse xs)"
proof -
  have "sorted (map float_key (list_sort (rev xs)))"
    using assms(2) by (intro list_sort_sorted) simp
  then have "sorted (map float_key (rev (sorted_reverse xs)))"
    by (simp add: sorted_reverse_def)
  moreover have "distinct (sorted_reverse xs)"
    using assms(1) by (simp add: sorted_reverse_distinct)
  moreover have "\<forall>x\<in>set (sorted_reverse xs). \<not> isnan x"
    using assms(2) by (simp add: sorted_reverse_set)
  ultimately show ?thesis by (rule descending_distinct_strict)
qed

section \<open>The table of level sizes\<close>

lemma keys_dict_append:
  "map fst (dict_append d k v) = (if k \<in> set (map fst d) then map fst d else map fst d @ [k])"
  by (induction d k v rule: dict_append.induct) auto

lemma keys_foldl_set:
  "set (map fst (foldl (\<lambda>d (t, p, sz, b). dict_append d sz t) d segs))
     = set (map fst d) \<union> seg_size ` set segs"
proof (induction segs arbitrary: d)
  case Nil
  show ?case by simp
next
  case (Cons s segs)
  obtain t p sz b where s: "s = (t, p, sz, b)" by (cases s) auto
  show ?case
    unfolding s foldl_Cons prod.case Cons keys_dict_append
    by (auto simp: seg_size_def)
qed

lemma keys_foldl_distinct:
  "distinct (map fst d) \<Longrightarrow>
   distinct (map fst (foldl (\<lambda>d (t, p, sz, b). dict_append d sz t) d segs))"
proof (induction segs arbitrary: d)
  case Nil
  then show ?case by simp
next
  case (Cons s segs)
  obtain t p sz b where s: "s = (t, p, sz, b)" by (cases s) auto
  have "distinct (map fst (dict_append d sz t))"
    using Cons.prems by (simp add: keys_dict_append)
  then show ?case unfolding s foldl_Cons prod.case by (rule Cons.IH)
qed

lemma unique_sizes_set: "set (unique_sizes flat) = seg_size ` set flat"
  unfolding unique_sizes_def sorted_reverse_set size_to_lines_def keys_foldl_set by simp


lemma no_nan_sizes: "no_nan flat \<longleftrightarrow> (\<forall>x\<in>seg_size ` set flat. \<not> isnan x)"
  by (auto simp: no_nan_def list_all_iff)

lemma unique_sizes_decreasing:
  assumes "no_nan flat"
  shows "strictly_decreasing (unique_sizes flat)"
proof -
  let ?ks = "map fst (size_to_lines flat)"
  have d: "distinct ?ks" unfolding size_to_lines_def by (rule keys_foldl_distinct) simp
  have "set ?ks = seg_size ` set flat"
    unfolding size_to_lines_def keys_foldl_set by simp
  with assms have n: "\<forall>x\<in>set ?ks. \<not> isnan x" by (simp only: no_nan_sizes)
  from d n show ?thesis
    unfolding strictly_decreasing_def unique_sizes_def by (rule sorted_reverse_descending)
qed


lemma slice_to_subset: "set (slice_to xs k) \<subseteq> set xs"
  by (auto simp: slice_to_def dest: in_set_takeD)


lemma level_sizes_take:
  "- 1 \<le> hl \<Longrightarrow> level_sizes_of hl flat = take (nat (hl + 1)) (unique_sizes flat)"
  by (simp add: level_sizes_of_def slice_to_def)




section \<open>Deduplication and the empty input\<close>

lemma dedup_step_Some:
  "fst (foldl dedup_step (acc, Some x) hs) = acc @ tl (remdups_adj (x # hs))"
proof (induction hs arbitrary: acc x)
  case Nil
  show ?case by simp
next
  case (Cons y ys)
  show ?case
  proof (cases "y = x")
    case True
    then show ?thesis using Cons [of acc x] by (simp add: dedup_step_def)
  next
    case False
    have "remdups_adj (y # ys) = y # tl (remdups_adj (y # ys))"
      by (cases ys) auto
    with False show ?thesis using Cons [of "acc @ [y]" y] by (simp add: dedup_step_def)
  qed
qed

lemma deduplicate_remdups_adj: "deduplicate hs = remdups_adj hs"
proof (cases hs)
  case Nil
  then show ?thesis by (simp add: deduplicate_def)
next
  case (Cons y ys)
  have "remdups_adj (y # ys) = y # tl (remdups_adj (y # ys))"
    by (cases ys) auto
  then show ?thesis
    unfolding Cons deduplicate_def using dedup_step_Some [of "[y]" y ys]
    by (simp add: dedup_step_def)
qed

lemma process_segments_outline:
  "process_segments hl pages = Inr out \<Longrightarrow>
   o_outline out
     = deduplicate (headings (scan hl (level_sizes_of hl (concat pages)) (concat pages)))"
proof (cases "concat pages = []")
  case True
  assume "process_segments hl pages = Inr out"
  then have "out = \<lparr>o_title = [], o_outline = []\<rparr>"
    unfolding process_segments_def Let_def True by simp
  then show ?thesis unfolding True by (simp add: scan_def deduplicate_def)
next
  case False
  assume "process_segments hl pages = Inr out"
  with False show ?thesis
    by (auto simp: process_segments_def Let_def split: if_splits sum.splits)
qed

text \<open>
  Claim C6. The last pass over the accepted headings drops every heading equal (level,
  text and page) to the heading just before it and keeps every other one: the result is
  the list with adjacent repetitions removed, it has no two equal neighbours, and a list
  without equal neighbours is returned unchanged, whatever duplicates it has further
  apart. The outline returned is the result of this pass. Two consecutive headings
  \<open>H1 Introduction, page 3\<close> become one; with another heading between them both stay.
\<close>

theorem deduplicate_adjacent:
  "deduplicate hs = remdups_adj hs
   \<and> distinct_adj (deduplicate hs)
   \<and> (distinct_adj hs \<longrightarrow> deduplicate hs = hs)
   \<and> (process_segments hl pages = Inr out \<longrightarrow>
        o_outline out
          = deduplicate (headings (scan hl (level_sizes_of hl (concat pages)) (concat pages))))
   \<and> deduplicate [\<lparr>h_level = ''H1'', h_text = ''Introduction'', h_page = 3\<rparr>,
                   \<lparr>h_level = ''H1'', h_text = ''Introduction'', h_page = 3\<rparr>]
       = [\<lparr>h_level = ''H1'', h_text = ''Introduction'', h_page = 3\<rparr>]
   \<and> deduplicate [\<lparr>h_level = ''H1'', h_text = ''Introduction'', h_page = 3\<rparr>,
                   \<lparr>h_level = ''H2'', h_text = ''Scope'', h_page = 3\<rparr>,
                   \<lparr>h_level = ''H1'', h_text = ''Introduction'', h_page = 3\<rparr>]
       = [\<lparr>h_level = ''H1'', h_text = ''Introduction'', h_page = 3\<rparr>,
          \<lparr>h_level = ''H2'', h_text = ''Scope'', h_page = 3\<rparr>,
          \<lparr>h_level = ''H1'', h_text = ''Introduction'', h_page = 3\<rparr>]"
proof -
  have "remdups_adj (remdups_adj hs) = remdups_adj hs"
    by (metis distinct_adj_altdef distinct_adj_remdups_adj)
  then show ?thesis
    using process_segments_outline [of hl pages out]
    by (simp add: deduplicate_remdups_adj distinct_adj_altdef)
qed

theorem deduplicate_adjacent_witness:
  "o_outline \<lparr>o_title = ''1 Introduction'',
              o_outline = [\<lparr>h_level = ''H1'', h_text = ''1 Introduction'', h_page = 3\<rparr>,
                           \<lparr>h_level = ''H1'', h_text = ''2 Scope'', h_page = 3\<rparr>,
                           \<lparr>h_level = ''H1'', h_text = ''1 Introduction'', h_page = 3\<rparr>]\<rparr>
   = deduplicate [\<lparr>h_level = ''H1'', h_text = ''1 Introduction'', h_page = 3\<rparr>,
                  \<lparr>h_level = ''H1'', h_text = ''1 Introduction'', h_page = 3\<rparr>,
                  \<lparr>h_level = ''H1'', h_text = ''2 Scope'', h_page = 3\<rparr>,
                  \<lparr>h_level = ''H1'', h_text = ''1 Introduction'', h_page = 3\<rparr>]
   \<and> distinct_adj [\<lparr>h_level = ''H1'', h_text = ''1 Introduction'', h_page = 3\<rparr>,
                    \<lparr>h_level = ''H1'', h_text = ''2 Scope'', h_page = 3\<rparr>,
                    \<lparr>h_level = ''H1'', h_text = ''1 Introduction'', h_page = 3\<rparr>]
   \<and> deduplicate [\<lparr>h_level = ''H1'', h_text = ''1 Introduction'', h_page = 3\<rparr>,
                   \<lparr>h_level = ''H1'', h_text = ''2 Scope'', h_page = 3\<rparr>,
                   \<lparr>h_level = ''H1'', h_text = ''1 Introduction'', h_page = 3\<rparr>]
       = [\<lparr>h_level = ''H1'', h_text = ''1 Introduction'', h_page = 3\<rparr>,
          \<lparr>h_level = ''H1'', h_text = ''2 Scope'', h_page = 3\<rparr>,
          \<lparr>h_level = ''H1'', h_text = ''1 Introduction'', h_page = 3\<rparr>]"
proof -
  let ?F = "[(''1 Introduction'', 3, Fin 14, True), (''1  Introduction'', 3, Fin 14, True),
             (''2 Scope'', 3, Fin 14, True), (''1 Introduction'', 3, Fin 14, True)] :: segment list"
  let ?hs = "[\<lparr>h_level = ''H1'', h_text = ''1 Introduction'', h_page = 3\<rparr>,
              \<lparr>h_level = ''H1'', h_text = ''1 Introduction'', h_page = 3\<rparr>,
              \<lparr>h_level = ''H1'', h_text = ''2 Scope'', h_page = 3\<rparr>,
              \<lparr>h_level = ''H1'', h_text = ''1 Introduction'', h_page = 3\<rparr>]"
  let ?ks = "[\<lparr>h_level = ''H1'', h_text = ''1 Introduction'', h_page = 3\<rparr>,
              \<lparr>h_level = ''H1'', h_text = ''2 Scope'', h_page = 3\<rparr>,
              \<lparr>h_level = ''H1'', h_text = ''1 Introduction'', h_page = 3\<rparr>]"
  let ?out = "\<lparr>o_title = ''1 Introduction'', o_outline = ?ks\<rparr>"
  have p: "process_segments 3 [?F] = Inr ?out" by code_simp
  have s: "headings (scan 3 (level_sizes_of 3 (concat [?F])) (concat [?F])) = ?hs"
    by code_simp
  have da: "distinct_adj ?ks" by simp
  note w1 = deduplicate_adjacent [of ?hs 3 "[?F]" ?out, THEN conjunct2, THEN conjunct2,
      THEN conjunct2, THEN conjunct1, THEN mp, OF p, unfolded s]
  note w2 = deduplicate_adjacent [of ?ks 3 "[?F]" ?out, THEN conjunct2, THEN conjunct2,
      THEN conjunct1, THEN mp, OF da]
  from w1 da w2 show ?thesis by (intro conjI)
qed

text \<open>
  Claim C7. When the flattened input is empty (no page, or only empty pages) the
  classifier returns the empty title and the empty outline, and no error.
\<close>

theorem empty_input:
  "concat pages_data = [] \<Longrightarrow>
   process_segments heading_levels pages_data = Inr \<lparr>o_title = [], o_outline = []\<rparr>"
  by (simp add: process_segments_def)

theorem empty_input_witness:
  "process_segments 3 [] = Inr \<lparr>o_title = [], o_outline = []\<rparr>
   \<and> process_segments 3 [[], []] = Inr \<lparr>o_title = [], o_outline = []\<rparr>"
  using empty_input [of "[]" 3] empty_input [of "[[], []]" 3] by simp

section \<open>The patterns\<close>

lemma span_run:
  "list_all P a \<Longrightarrow> u = [] \<or> \<not> P (hd u) \<Longrightarrow>
   takeWhile P (a @ u) = a \<and> dropWhile P (a @ u) = u"
  by (cases u) (auto simp: list_all_iff)

lemma space_not_digit: "is_space c \<Longrightarrow> \<not> is_digit c"
  by (auto simp: is_space_def is_digit_def Let_def)

lemma space_not_upper: "is_space c \<Longrightarrow> \<not> is_ascii_upper c"
  by (auto simp: is_space_def is_ascii_upper_def Let_def)

lemma space_not_dot: "is_space c \<Longrightarrow> c \<noteq> CHR ''.''"
  by (auto simp: is_space_def code_point_def Let_def)

lemma dot_not_digit: "\<not> is_digit (CHR ''.'')"
  by (simp add: is_digit_def code_point_def)

lemma match_digits_Some:
  "match_digits s = Some (d, r) \<longleftrightarrow>
     d = takeWhile is_digit s \<and> r = dropWhile is_digit s \<and> d \<noteq> []"
  by (auto simp: match_digits_def Let_def)

lemma match_digits_run:
  "d \<noteq> [] \<Longrightarrow> list_all is_digit d \<Longrightarrow> u = [] \<or> \<not> is_digit (hd u) \<Longrightarrow>
   match_digits (d @ u) = Some (d, u)"
  using span_run [of is_digit d u] by (simp add: match_digits_def Let_def)

lemma match_dot_groups_sound:
  "match_dot_groups r = (g, r') \<Longrightarrow> r = g @ r' \<and> dot_groups g"
proof (induction r arbitrary: g r' rule: match_dot_groups.induct)
  case (1 s)
  show ?case
  proof (cases s)
    case Nil
    with "1.prems" show ?thesis by (simp add: dot_groups.none)
  next
    case (Cons c cs)
    show ?thesis
    proof (cases "c = CHR ''.''")
      case False
      with Cons "1.prems" show ?thesis by (simp add: dot_groups.none)
    next
      case True
      show ?thesis
      proof (cases "match_digits cs")
        case None
        with Cons True "1.prems" show ?thesis by (simp add: dot_groups.none)
      next
        case (Some x)
        obtain d r where x: "x = (d, r)" by (cases x)
        obtain g1 r1 where m: "match_dot_groups r = (g1, r1)" by (cases "match_dot_groups r")
        from Some x have dr: "d = takeWhile is_digit cs" "r = dropWhile is_digit cs" "d \<noteq> []"
          by (auto simp: match_digits_Some)
        have ih: "r = g1 @ r1 \<and> dot_groups g1"
          using "1.IH" [OF Cons True Some x [symmetric] m] .
        from "1.prems" Cons True Some x m have g: "g = c # d @ g1" and r': "r' = r1"
          by (simp_all add: match_dot_groups.simps [of s])
        have "list_all is_digit d" unfolding dr by (simp add: list_all_iff) (meson set_takeWhileD)
        with dr ih True have "dot_groups (c # d @ g1)" by (simp add: dot_groups.more)
        moreover have "cs = d @ r" unfolding dr by simp
        ultimately show ?thesis using Cons g r' ih by simp
      qed
    qed
  qed
qed

lemma dot_groups_hd: "dot_groups g \<Longrightarrow> g = [] \<or> hd g = CHR ''.''"
  by (induction rule: dot_groups.induct) auto

lemma match_dot_groups_complete:
  "dot_groups g \<Longrightarrow> u = [] \<or> (hd u \<noteq> CHR ''.'' \<and> \<not> is_digit (hd u)) \<Longrightarrow>
   match_dot_groups (g @ u) = (g, u)"
proof (induction rule: dot_groups.induct)
  case none
  then show ?case by (cases u) (auto simp: match_dot_groups.simps [of "[]"] match_dot_groups.simps [of "_ # _"])
next
  case (more d g)
  have "g @ u = [] \<or> \<not> is_digit (hd (g @ u))"
    using more.hyps(3) more.prems dot_groups_hd [of g] dot_not_digit by (cases g) auto
  then have "match_digits (d @ g @ u) = Some (d, g @ u)"
    using more.hyps by (intro match_digits_run)
  with more.IH [OF more.prems] show ?case
    by (simp add: match_dot_groups.simps [of "CHR ''.'' # d @ g @ u"])
qed

lemma heading_pattern_sound:
  assumes "heading_pattern_match t = Some g"
  shows "heading_pattern_matches t g"
proof -
  from assms obtain d r where md: "match_digits t = Some (d, r)"
    by (auto simp: heading_pattern_match_def split: option.splits)
  obtain g1 r1 where mg: "match_dot_groups r = (g1, r1)" by (cases "match_dot_groups r")
  from assms md mg obtain c cs where r1: "r1 = c # cs" and c: "is_space c" and g: "g = d @ g1"
    by (auto simp: heading_pattern_match_def split: list.splits if_splits)
  from md have dr: "d = takeWhile is_digit t" "r = dropWhile is_digit t" "d \<noteq> []"
    by (auto simp: match_digits_Some)
  have dd: "list_all is_digit d" unfolding dr by (simp add: list_all_iff) (meson set_takeWhileD)
  from match_dot_groups_sound [OF mg] have rr: "r = g1 @ r1" and dg: "dot_groups g1" by simp_all
  have "t = d @ r" unfolding dr by simp
  then have "t = g @ [c] @ cs" using rr r1 g by simp
  moreover have "dotted_number g" unfolding dotted_number_def using g dr(3) dd dg by blast
  ultimately show ?thesis unfolding heading_pattern_matches_def using c
    by (intro exI [of _ "[c]"] exI [of _ cs]) simp
qed

lemma heading_pattern_complete:
  assumes "heading_pattern_matches t g"
  shows "heading_pattern_match t = Some g"
proof -
  from assms obtain ws rest where t: "t = g @ ws @ rest" and dn: "dotted_number g"
    and ws: "ws \<noteq> []" "list_all is_space ws"
    unfolding heading_pattern_matches_def by blast
  from dn obtain d g1 where g: "g = d @ g1" and d: "d \<noteq> []" "list_all is_digit d"
    and dg: "dot_groups g1"
    unfolding dotted_number_def by blast
  let ?u = "ws @ rest"
  from ws obtain c cs where u: "?u = c # cs" and c: "is_space c" by (cases ws) auto
  have nd: "\<not> is_digit c" and ndot: "c \<noteq> CHR ''.''"
    using c by (simp_all add: space_not_digit space_not_dot)
  have "g1 @ ?u = [] \<or> \<not> is_digit (hd (g1 @ ?u))"
    using dg dot_groups_hd [of g1] dot_not_digit u nd by (cases g1) auto
  then have md: "match_digits (d @ g1 @ ?u) = Some (d, g1 @ ?u)"
    using d by (intro match_digits_run)
  have mg: "match_dot_groups (g1 @ ?u) = (g1, ?u)"
    using dg u nd ndot by (intro match_dot_groups_complete) simp_all
  show ?thesis
    unfolding t g heading_pattern_match_def using md mg u c by simp
qed

text \<open>The matcher computes exactly the group of the pattern.\<close>

lemma heading_pattern_adequate:
  "heading_pattern_match t = Some g \<longleftrightarrow> heading_pattern_matches t g"
  using heading_pattern_sound heading_pattern_complete by blast

lemma list_all_takeWhile: "list_all P (takeWhile P xs)"
  by (induction xs) auto

lemma date_like_sound:
  assumes "date_like s"
  shows "date_pattern_matches s"
proof -
  let ?a = "takeWhile is_digit s" and ?r1 = "dropWhile is_digit s"
  let ?b = "takeWhile is_space ?r1" and ?r2 = "dropWhile is_space ?r1"
  let ?c = "takeWhile is_ascii_upper ?r2" and ?r3 = "dropWhile is_ascii_upper ?r2"
  let ?d = "takeWhile is_space ?r3" and ?e = "dropWhile is_space ?r3"
  have "s = ?a @ ?r1" by simp
  also have "?r1 = ?b @ ?r2" by simp
  also have "?r2 = ?c @ ?r3" by simp
  also have "?r3 = ?d @ ?e" by simp
  finally have s: "s = ?a @ ?b @ ?c @ ?d @ ?e" .
  from assms have p: "1 \<le> length ?a" "length ?a \<le> 2" "?b \<noteq> []" "3 \<le> length ?c" "?d \<noteq> []"
    "2 \<le> length ?e" "length ?e \<le> 4" "list_all is_digit ?e"
    unfolding date_like_def Let_def by blast+
  show ?thesis
    unfolding date_pattern_matches_def
    apply (rule exI [of _ ?a], rule exI [of _ ?b], rule exI [of _ ?c], rule exI [of _ ?d],
        rule exI [of _ ?e])
    using s p by (simp only: list_all_takeWhile simp_thms)
qed

lemma date_like_complete:
  assumes "date_pattern_matches s"
  shows "date_like s"
proof -
  from assms obtain a b c d e where s: "s = a @ b @ c @ d @ e"
    and a: "list_all is_digit a" "1 \<le> length a" "length a \<le> 2"
    and b: "list_all is_space b" "b \<noteq> []"
    and c: "list_all is_ascii_upper c" "3 \<le> length c"
    and d: "list_all is_space d" "d \<noteq> []"
    and e: "list_all is_digit e" "2 \<le> length e" "length e \<le> 4"
    unfolding date_pattern_matches_def by blast
  have hb: "is_space (hd b)" using b by (cases b) auto
  have hc: "is_ascii_upper (hd c)" using c by (cases c) auto
  have hd: "is_space (hd d)" using d by (cases d) auto
  have he: "is_digit (hd e)" using e by (cases e) auto
  have ne: "c \<noteq> []" "e \<noteq> []" using c e by auto
  have 1: "takeWhile is_digit s = a \<and> dropWhile is_digit s = b @ c @ d @ e"
    unfolding s using a(1) b(2) hb space_not_digit by (intro span_run) auto
  have 2: "takeWhile is_space (b @ c @ d @ e) = b \<and> dropWhile is_space (b @ c @ d @ e) = c @ d @ e"
    using b(1) ne(1) hc space_not_upper by (intro span_run) auto
  have 3: "takeWhile is_ascii_upper (c @ d @ e) = c \<and> dropWhile is_ascii_upper (c @ d @ e) = d @ e"
    using c(1) d(2) hd space_not_upper by (intro span_run) auto
  have 4: "takeWhile is_space (d @ e) = d \<and> dropWhile is_space (d @ e) = e"
    using d(1) ne(2) he space_not_digit by (intro span_run) auto
  show ?thesis
    unfolding date_like_def Let_def using 1 2 3 4 a b c d e by simp
qed

text \<open>The run-by-run test is the full match of the date pattern.\<close>

lemma date_like_adequate: "date_like s \<longleftrightarrow> date_pattern_matches s"
  using date_like_sound date_like_complete by blast

lemma is_valid_heading_iff:
  "is_valid_heading t \<longleftrightarrow>
     \<not> date_pattern_matches t \<and> \<not> all_digits t \<and> list_ex is_alpha t"
  by (simp add: is_valid_heading_def date_like_adequate)

section \<open>The classification pass\<close>

lemma headings_step:
  "headings (classify_step hl ls st seg) = headings st @ emitted_heading hl ls seg"
  by (cases seg) (auto simp: classify_step_def emitted_heading_def Let_def)

lemma title_candidate_step:
  "title_candidate (classify_step hl ls st seg)
     = (if title_candidate st = [] \<and> accepted_candidate hl ls seg then seg_text seg
        else title_candidate st)"
  by (cases seg) (auto simp: classify_step_def accepted_candidate_def seg_text_def Let_def)

lemma headings_foldl:
  "headings (foldl (classify_step hl ls) st flat)
     = headings st @ concat (map (emitted_heading hl ls) flat)"
  by (induction flat arbitrary: st) (simp_all add: headings_step)

lemma title_candidate_foldl:
  "title_candidate (foldl (classify_step hl ls) st flat)
     = (if title_candidate st \<noteq> [] then title_candidate st
        else (case find (\<lambda>seg. accepted_candidate hl ls seg \<and> seg_text seg \<noteq> []) flat of
                None \<Rightarrow> []
              | Some seg \<Rightarrow> seg_text seg))"
proof (induction flat arbitrary: st)
  case Nil
  show ?case by simp
next
  case (Cons seg flat)
  show ?case
    unfolding foldl_Cons Cons title_candidate_step by auto
qed

lemma scan_headings: "headings (scan hl ls flat) = concat (map (emitted_heading hl ls) flat)"
  by (simp add: scan_def headings_foldl)

lemma scan_title_candidate:
  "title_candidate (scan hl ls flat)
     = (case find (\<lambda>seg. accepted_candidate hl ls seg \<and> seg_text seg \<noteq> []) flat of
          None \<Rightarrow> []
        | Some seg \<Rightarrow> seg_text seg)"
  by (simp add: scan_def title_candidate_foldl)

lemma emitted_heading_valid:
  "h \<in> set (emitted_heading hl ls seg) \<Longrightarrow>
   is_valid_heading (h_text h) \<and> h_text h = clean_text (seg_text seg)"
  by (cases seg) (auto simp: emitted_heading_def seg_text_def Let_def split: if_splits)

lemma scan_headings_valid:
  "h \<in> set (headings (scan hl ls flat)) \<Longrightarrow>
   is_valid_heading (h_text h) \<and> (\<exists>seg\<in>set flat. h_text h = clean_text (seg_text seg))"
proof -
  assume "h \<in> set (headings (scan hl ls flat))"
  then obtain seg where seg: "seg \<in> set flat" and h: "h \<in> set (emitted_heading hl ls seg)"
    unfolding scan_headings by auto
  from emitted_heading_valid [OF h] seg show ?thesis by blast
qed

lemma outline_headings_valid:
  assumes "process_segments hl pages = Inr out" and "h \<in> set (o_outline out)"
  shows "is_valid_heading (h_text h)
         \<and> (\<exists>seg\<in>set (concat pages). h_text h = clean_text (seg_text seg))"
proof -
  from assms have "h \<in> set (headings (scan hl (level_sizes_of hl (concat pages)) (concat pages)))"
    by (simp add: process_segments_outline deduplicate_remdups_adj)
  then show ?thesis by (rule scan_headings_valid)
qed

text \<open>
  Claim C4. A heading of the returned outline has a text that passed the validity
  filter, and the text is the cleaned text of an input line. The filter rejects a text
  that as a whole matches the date pattern (1-2 digits, white space, 3 or more letters
  \<open>A-Z\<close>, white space, 2-4 digits), a text made of digits only, and a text without any
  alphabetic character. So \<open>18 JUNE 2013\<close> and \<open>42\<close> are never the text of a returned
  heading.
\<close>

theorem valid_headings_only:
  "(process_segments hl pages = Inr out \<and> h \<in> set (o_outline out) \<longrightarrow>
      is_valid_heading (h_text h)
      \<and> (\<exists>seg\<in>set (concat pages). h_text h = clean_text (seg_text seg))
      \<and> h_text h \<noteq> ''18 JUNE 2013'' \<and> h_text h \<noteq> ''42'')
   \<and> (is_valid_heading t \<longleftrightarrow>
        \<not> date_pattern_matches t \<and> \<not> all_digits t \<and> list_ex is_alpha t)
   \<and> date_pattern_matches ''18 JUNE 2013'' \<and> all_digits ''42''"
proof -
  have d: "date_like ''18 JUNE 2013''"
    by (simp add: date_like_def is_digit_def is_space_def is_ascii_upper_def code_point_def)
  have a: "all_digits ''42''"
    by (simp add: all_digits_def is_digit_def code_point_def)
  from d a have n: "\<not> is_valid_heading ''18 JUNE 2013''" "\<not> is_valid_heading ''42''"
    by (simp_all add: is_valid_heading_def)
  from d have dp: "date_pattern_matches ''18 JUNE 2013''" by (simp only: date_like_adequate)
  show ?thesis
    using outline_headings_valid [of hl pages out h] n dp a is_valid_heading_iff [of t]
    by (simp only: simp_thms) metis
qed

theorem valid_headings_only_witness:
  "process_segments 3 [[(''Project Proposal'', 1, Fin 20, True)],
                        [(''18 JUNE 2013'', 2, Fin 16, False), (''42'', 2, Fin 16, False),
                         (''Overview'', 2, Fin 16, False)]]
     = Inr \<lparr>o_title = ''Project Proposal'',
            o_outline = [\<lparr>h_level = ''H1'', h_text = ''Overview'', h_page = 2\<rparr>]\<rparr>
   \<and> is_valid_heading ''Overview''
   \<and> \<not> is_valid_heading ''18 JUNE 2013'' \<and> \<not> is_valid_heading ''42''"
proof -
  let ?P = "[[(''Project Proposal'', 1, Fin 20, True)],
             [(''18 JUNE 2013'', 2, Fin 16, False), (''42'', 2, Fin 16, False),
              (''Overview'', 2, Fin 16, False)]] :: segment list list"
  let ?h = "\<lparr>h_level = ''H1'', h_text = ''Overview'', h_page = 2\<rparr>"
  let ?out = "\<lparr>o_title = ''Project Proposal'', o_outline = [?h]\<rparr>"
  have p: "process_segments 3 ?P = Inr ?out" by code_simp
  have m: "?h \<in> set (o_outline ?out)" by simp
  have t: "h_text ?h = ''Overview''" by simp
  from valid_headings_only [of 3 ?P ?out ?h "''42''"] p m
  have "is_valid_heading (h_text ?h)" by blast
  then have "is_valid_heading ''Overview''" unfolding t .
  moreover have "\<not> is_valid_heading ''18 JUNE 2013''" "\<not> is_valid_heading ''42''"
    using valid_headings_only [of 3 ?P ?out ?h "''18 JUNE 2013''"]
      valid_headings_only [of 3 ?P ?out ?h "''42''"]
    by blast+
  ultimately show ?thesis using p by blast
qed

section \<open>Levels\<close>

lemma index_of_None: "index_of x xs = None \<longleftrightarrow> x \<notin> set xs"
  by (induction xs) auto

lemma index_of_Some:
  "index_of x xs = Some i \<Longrightarrow> i < length xs \<and> xs ! i = x \<and> (\<forall>j<i. xs ! j \<noteq> x)"
proof (induction xs arbitrary: i)
  case Nil
  then show ?case by simp
next
  case (Cons y ys)
  show ?case
  proof (cases "y = x")
    case True
    with Cons.prems show ?thesis by simp
  next
    case False
    with Cons.prems obtain k where k: "index_of x ys = Some k" and i: "i = Suc k" by auto
    from Cons.IH [OF k] False i show ?thesis by (auto simp: less_Suc_eq_0_disj)
  qed
qed

lemma size_to_level_absent: "sz \<notin> set ls \<Longrightarrow> size_to_level sz ls = - 1"
  by (simp add: size_to_level_def index_of_None [symmetric])

lemma size_to_level_present:
  assumes "sz \<in> set ls"
  shows "\<exists>i<length ls. size_to_level sz ls = int i \<and> ls ! i = sz \<and> (\<forall>j<i. ls ! j \<noteq> sz)"
proof -
  from assms obtain i where i: "index_of sz ls = Some i"
    using index_of_None [of sz ls] by (cases "index_of sz ls") auto
  from index_of_Some [OF i] i show ?thesis by (auto simp: size_to_level_def)
qed

lemma num_level_match:
  "heading_pattern_matches t g \<Longrightarrow> num_level_of t = 1 + int (count_list g (CHR ''.''))"
  by (simp add: num_level_of_def heading_pattern_complete)

lemma num_level_no_match:
  "\<forall>g. \<not> heading_pattern_matches t g \<Longrightarrow> num_level_of t = 0"
  using heading_pattern_sound [of t] by (cases "heading_pattern_match t") (auto simp: num_level_of_def)

text \<open>
  Claim C1. The resolved level of a line is its numeric level when that is between 1
  and \<open>heading_levels\<close>, and its size level otherwise. The numeric level is 1 plus the
  number of dots of the group matched by the heading pattern at the start of the raw
  text, and 0 when the pattern does not match; the size level is the first index of the
  font size in the table of level sizes, and -1 when the size is not in the table. The
  line \<open>2.1 Background\<close> with a font size at index 3 has level 2 for
  \<open>heading_levels = 3\<close>.
\<close>

theorem resolved_level:
  "resolve_level heading_levels level_sizes (t, p, sz, b)
     = (if 1 \<le> num_level_of t \<and> num_level_of t \<le> heading_levels then num_level_of t
        else size_to_level sz level_sizes)
   \<and> (heading_pattern_matches t g \<longrightarrow> num_level_of t = 1 + int (count_list g (CHR ''.'')))
   \<and> ((\<forall>g. \<not> heading_pattern_matches t g) \<longrightarrow> num_level_of t = 0)
   \<and> (sz \<notin> set level_sizes \<longrightarrow> size_to_level sz level_sizes = - 1)
   \<and> (sz \<in> set level_sizes \<longrightarrow>
        (\<exists>i<length level_sizes. size_to_level sz level_sizes = int i \<and> level_sizes ! i = sz
           \<and> (\<forall>j<i. level_sizes ! j \<noteq> sz)))
   \<and> size_to_level (Fin 12) [Fin 20, Fin 16, Fin 14, Fin 12] = 3
   \<and> resolve_level 3 [Fin 20, Fin 16, Fin 14, Fin 12] (''2.1 Background'', p, Fin 12, b) = 2"
proof -
  have m: "heading_pattern_match ''2.1 Background'' = Some ''2.1''"
    by (simp add: heading_pattern_match_def match_digits_def match_dot_groups.simps [of "[]"] 
        match_dot_groups.simps [of "_ # _"] is_digit_def is_space_def code_point_def)
  have n: "num_level_of ''2.1 Background'' = 2"
    by (simp add: num_level_of_def m)
  have s: "size_to_level (Fin 12) [Fin 20, Fin 16, Fin 14, Fin 12] = 3"
    by (simp add: size_to_level_def)
  have r: "resolve_level 3 [Fin 20, Fin 16, Fin 14, Fin 12] (''2.1 Background'', p, Fin 12, b) = 2"
    by (simp add: resolve_level_def n)
  have d: "resolve_level heading_levels level_sizes (t, p, sz, b)
     = (if 1 \<le> num_level_of t \<and> num_level_of t \<le> heading_levels then num_level_of t
        else size_to_level sz level_sizes)"
    by (simp add: resolve_level_def Let_def)
  show ?thesis
    using d s r num_level_match [of t g] num_level_no_match [of t]
      size_to_level_absent [of sz level_sizes] size_to_level_present [of sz level_sizes]
    by (simp only: simp_thms) blast
qed

theorem resolved_level_witness:
  "heading_pattern_matches ''2.1 Background'' ''2.1''
   \<and> num_level_of ''2.1 Background'' = 2
   \<and> num_level_of ''Background'' = 0
   \<and> size_to_level (Fin 12) [Fin 20, Fin 16, Fin 14, Fin 12] = 3
   \<and> size_to_level (Fin 9) [Fin 20, Fin 16, Fin 14, Fin 12] = - 1
   \<and> resolve_level 3 [Fin 20, Fin 16, Fin 14, Fin 12] (''2.1 Background'', 4, Fin 12, False) = 2
   \<and> resolve_level 3 [Fin 20, Fin 16, Fin 14, Fin 12] (''Background'', 4, Fin 16, False) = 1
   \<and> resolve_level 3 [Fin 20, Fin 16, Fin 14, Fin 12] (''1.2.3.4 Details'', 4, Fin 9, False) = - 1"
proof -
  let ?ls = "[Fin 20, Fin 16, Fin 14, Fin 12]"
  have m: "heading_pattern_match ''2.1 Background'' = Some ''2.1''" by code_simp
  then have hm: "heading_pattern_matches ''2.1 Background'' ''2.1''"
    by (rule heading_pattern_sound)
  have "heading_pattern_match ''Background'' = None" by code_simp
  then have nm: "\<forall>g. \<not> heading_pattern_matches ''Background'' g"
    using heading_pattern_complete [of "''Background''"] by (metis option.distinct(1))
  have absent: "Fin 9 \<notin> set ?ls" by simp
  note w = resolved_level [of 3 ?ls "''2.1 Background''" 4 "Fin 12" False "''2.1''"]
  note v = resolved_level [of 3 ?ls "''Background''" 4 "Fin 9" False "''2.1''"]
  from w [THEN conjunct2, THEN conjunct1, THEN mp, OF hm]
  have n: "num_level_of ''2.1 Background'' = 2" by simp
  from v [THEN conjunct2, THEN conjunct2, THEN conjunct1, THEN mp, OF nm]
  have n0: "num_level_of ''Background'' = 0" .
  from v [THEN conjunct2, THEN conjunct2, THEN conjunct2, THEN conjunct1, THEN mp, OF absent]
  have s9: "size_to_level (Fin 9) ?ls = - 1" .
  from w [THEN conjunct2, THEN conjunct2, THEN conjunct2, THEN conjunct2, THEN conjunct2,
      THEN conjunct1]
  have s: "size_to_level (Fin 12) ?ls = 3" .
  from w [THEN conjunct1]
  have r: "resolve_level 3 ?ls (''2.1 Background'', 4, Fin 12, False) = 2"
    unfolding n s by simp
  have r2: "resolve_level 3 ?ls (''Background'', 4, Fin 16, False) = 1" by code_simp
  have r3: "resolve_level 3 ?ls (''1.2.3.4 Details'', 4, Fin 9, False) = - 1"
    by code_simp
  from hm n n0 s s9 r r2 r3 show ?thesis by (intro conjI)
qed

section \<open>The title\<close>

lemma unique_sizes_Nil: "unique_sizes [] = []"
  by (simp add: unique_sizes_def size_to_lines_def sorted_reverse_def list_sort_def)

lemma level_sizes_Nil: "level_sizes_of hl [] = []"
  by (simp add: level_sizes_of_def slice_to_def unique_sizes_Nil)

lemma level_sizes_subset: "set (level_sizes_of hl flat) \<subseteq> seg_size ` set flat"
  unfolding level_sizes_of_def unique_sizes_set [symmetric] by (rule slice_to_subset)

lemma level_sizes_nonempty:
  assumes "0 \<le> hl" and "flat \<noteq> []"
  shows "level_sizes_of hl flat \<noteq> []"
proof -
  have "length (unique_sizes flat) = length (map fst (size_to_lines flat))"
    unfolding unique_sizes_def by (rule sorted_reverse_length)
  moreover have "set (unique_sizes flat) \<noteq> {}"
    using assms(2) by (simp add: unique_sizes_set)
  ultimately have ne: "unique_sizes flat \<noteq> []" by auto
  have "0 < nat (hl + 1)" using assms(1) by simp
  with ne show ?thesis
    unfolding level_sizes_take [of hl flat, OF order_trans [OF _ assms(1)], simplified]
    by (cases "unique_sizes flat") (auto simp: take_Cons')
qed

lemma float_le_refl: "\<not> isnan x \<Longrightarrow> float_le x x"
  by (simp add: float_le_def float_eq_def)

lemma hd_decreasing_largest:
  assumes "strictly_decreasing xs" and "xs \<noteq> []" and "\<not> isnan (hd xs)"
  shows "\<forall>x\<in>set xs. float_le x (hd xs)"
proof -
  from assms(2) obtain y ys where xs: "xs = y # ys" by (cases xs) auto
  with assms(1) have "\<forall>z\<in>set ys. float_lt z y" by (simp add: strictly_decreasing_def)
  then have "\<forall>z\<in>set ys. float_le z y" by (simp add: float_le_def)
  with assms(3) show ?thesis unfolding xs by (simp add: float_le_refl)
qed

lemma level_sizes_largest:
  assumes "0 \<le> hl" and "flat \<noteq> []" and "no_nan flat"
  shows "hd (level_sizes_of hl flat) \<in> seg_size ` set flat
         \<and> (\<forall>seg\<in>set flat. float_le (seg_size seg) (hd (level_sizes_of hl flat)))"
proof -
  have ne: "level_sizes_of hl flat \<noteq> []" using assms(1,2) by (rule level_sizes_nonempty)
  have e: "level_sizes_of hl flat = take (nat (hl + 1)) (unique_sizes flat)"
    using assms(1) by (intro level_sizes_take) simp
  have "0 < nat (hl + 1)" using assms(1) by simp
  then have h: "hd (level_sizes_of hl flat) = hd (unique_sizes flat)"
    unfolding e by (rule hd_take)
  from ne e have une: "unique_sizes flat \<noteq> []" by auto
  then have mem: "hd (unique_sizes flat) \<in> seg_size ` set flat"
    using unique_sizes_set [of flat] by (metis hd_in_set)
  from assms(3) have "\<forall>x\<in>seg_size ` set flat. \<not> isnan x" by (simp only: no_nan_sizes)
  with mem have nn: "\<not> isnan (hd (unique_sizes flat))" by blast
  have "\<forall>x\<in>set (unique_sizes flat). float_le x (hd (unique_sizes flat))"
    using unique_sizes_decreasing [OF assms(3)] une nn by (rule hd_decreasing_largest)
  then have "\<forall>seg\<in>set flat. float_le (seg_size seg) (hd (unique_sizes flat))"
    unfolding unique_sizes_set by simp
  with mem show ?thesis unfolding h by simp
qed

lemma large_candidates_find:
  "large_candidates large flat
     = map seg_text (filter (\<lambda>seg. float_eq (seg_size seg) large) flat)"
proof -
  have "(\<lambda>(t, p, s, b). float_eq s large) = (\<lambda>seg :: segment. float_eq (seg_size seg) large)"
    by (auto simp: seg_size_def fun_eq_iff)
  moreover have "(fst :: segment \<Rightarrow> string) = seg_text"
    by (auto simp: seg_text_def fun_eq_iff)
  ultimately show ?thesis by (simp add: large_candidates_def)
qed

lemma first_of_filter:
  "(case map f (filter P xs) of [] \<Rightarrow> d | c # _ \<Rightarrow> c)
     = (case find P xs of None \<Rightarrow> d | Some x \<Rightarrow> f x)"
  by (induction xs) auto

lemma title_fallback_Cons:
  "title_fallback (large # ls) flat
     = Inr (case find (\<lambda>seg. float_eq (seg_size seg) large) flat of
              None \<Rightarrow> []
            | Some seg \<Rightarrow> seg_text seg)"
  by (simp add: title_fallback_def large_candidates_find first_of_filter)

lemma large_candidates_member:
  assumes "large \<in> seg_size ` set flat" and "\<not> isnan large"
  shows "large_candidates large flat \<noteq> []"
proof -
  from assms(1) obtain seg where "seg \<in> set flat" and "seg_size seg = large" by auto
  with assms(2) have "seg \<in> set (filter (\<lambda>s. float_eq (seg_size s) large) flat)"
    by (simp add: float_eq_def)
  then have "filter (\<lambda>s. float_eq (seg_size s) large) flat \<noteq> []"
    by (metis empty_iff list.set(1))
  then show ?thesis unfolding large_candidates_find by simp
qed

lemma level_sizes_observed:
  assumes "level_sizes_of hl flat \<noteq> []" and "no_nan flat"
  shows "large_candidates (hd (level_sizes_of hl flat)) flat \<noteq> []"
proof -
  from assms(1) have "hd (level_sizes_of hl flat) \<in> set (level_sizes_of hl flat)" by simp
  with level_sizes_subset [of hl flat]
  have m: "hd (level_sizes_of hl flat) \<in> seg_size ` set flat" by (rule subsetD)
  from assms(2) have "\<forall>x\<in>seg_size ` set flat. \<not> isnan x" by (simp only: no_nan_sizes)
  with m have "\<not> isnan (hd (level_sizes_of hl flat))" by blast
  with m show ?thesis by (rule large_candidates_member)
qed

lemma process_segments_flat:
  assumes "flat = concat pages"
  shows "process_segments hl pages
     = (if flat = [] then Inr \<lparr>o_title = [], o_outline = []\<rparr>
        else (case (if title_candidate (scan hl (level_sizes_of hl flat) flat) = []
                    then title_fallback (level_sizes_of hl flat) flat
                    else Inr (title_candidate (scan hl (level_sizes_of hl flat) flat))) of
                Inl e \<Rightarrow> Inl e
              | Inr t \<Rightarrow> Inr \<lparr>o_title = clean_text t,
                              o_outline = deduplicate (headings (scan hl (level_sizes_of hl flat) flat))\<rparr>))"
  unfolding process_segments_def Let_def assms by (rule refl)

lemma process_segments_nonempty:
  assumes "concat pages \<noteq> []" and "level_sizes_of hl (concat pages) = large # ls"
  shows "process_segments hl pages
     = Inr \<lparr>o_title = clean_text
               (if title_candidate (scan hl (large # ls) (concat pages)) = []
                then (case find (\<lambda>seg. float_eq (seg_size seg) large) (concat pages) of
                        None \<Rightarrow> []
                      | Some seg \<Rightarrow> seg_text seg)
                else title_candidate (scan hl (large # ls) (concat pages))),
            o_outline = deduplicate (headings (scan hl (large # ls) (concat pages)))\<rparr>"
proof -
  define flat where "flat = concat pages"
  from assms have "flat \<noteq> []" "level_sizes_of hl flat = large # ls"
    unfolding flat_def by blast+
  then show ?thesis
    unfolding process_segments_flat [OF flat_def] flat_def [symmetric]
    by (simp add: title_fallback_Cons)
qed

lemma clean_text_Nil: "clean_text [] = []"
  by (simp add: clean_text_def strip_def)

lemma no_candidate_title:
  assumes "\<not> list_ex (accepted_candidate hl ls) flat"
  shows "title_candidate (scan hl ls flat) = []"
proof -
  have "find (\<lambda>seg. accepted_candidate hl ls seg \<and> seg_text seg \<noteq> []) flat = None"
    using assms by (auto simp: find_None_iff list_ex_iff)
  then show ?thesis by (simp add: scan_title_candidate)
qed

lemma no_candidate_without_table: "\<not> accepted_candidate hl [] seg"
  by (cases seg) (auto simp: accepted_candidate_def resolve_level_def size_to_level_def Let_def)

text \<open>
  The only error of the classifier, and exactly when it occurs: the input is not empty
  and the table of level sizes is.
\<close>

lemma index_error_iff:
  "process_segments hl pages = Inl IndexError
     \<longleftrightarrow> concat pages \<noteq> [] \<and> level_sizes_of hl (concat pages) = []"
proof (cases "concat pages = []")
  case True
  then show ?thesis by (simp add: process_segments_def)
next
  case False
  show ?thesis
  proof (cases "level_sizes_of hl (concat pages)")
    case (Cons large ls)
    show ?thesis unfolding process_segments_nonempty [OF False Cons] using Cons by simp
  next
    case Nil
    define flat where "flat = concat pages"
    have "\<not> list_ex (accepted_candidate hl []) flat"
      by (simp add: list_ex_iff no_candidate_without_table)
    then have t: "title_candidate (scan hl [] flat) = []" by (rule no_candidate_title)
    have "process_segments hl pages = Inl IndexError"
      using False Nil t unfolding process_segments_flat [OF flat_def] flat_def [symmetric]
      by (simp add: title_fallback_def)
    with False Nil show ?thesis by simp
  qed
qed

lemma fallback_title:
  assumes "\<not> list_ex (accepted_candidate hl (level_sizes_of hl (concat pages))) (concat pages)"
    and "process_segments hl pages = Inr out"
  shows "o_title out
     = (case level_sizes_of hl (concat pages) of
          [] \<Rightarrow> []
        | large_size # _ \<Rightarrow>
            (case find (\<lambda>seg. float_eq (seg_size seg) large_size) (concat pages) of
               None \<Rightarrow> []
             | Some seg \<Rightarrow> clean_text (seg_text seg)))"
proof (cases "concat pages = []")
  case True
  from assms(2) have "out = \<lparr>o_title = [], o_outline = []\<rparr>"
    unfolding process_segments_def Let_def True by simp
  then show ?thesis unfolding True by (simp add: level_sizes_Nil)
next
  case False
  show ?thesis
  proof (cases "level_sizes_of hl (concat pages)")
    case Nil
    with False have "process_segments hl pages = Inl IndexError"
      by (simp only: index_error_iff simp_thms)
    with assms(2) show ?thesis by simp
  next
    case (Cons large ls)
    have t: "title_candidate (scan hl (large # ls) (concat pages)) = []"
      using assms(1) unfolding Cons by (rule no_candidate_title)
    from assms(2) show ?thesis
      unfolding process_segments_nonempty [OF False Cons] Cons t
      by (auto simp: clean_text_Nil split: option.splits)
  qed
qed

lemma returns_for_nonnegative:
  assumes "0 \<le> hl"
  shows "\<exists>out. process_segments hl pages = Inr out"
proof (cases "concat pages = []")
  case True
  then show ?thesis by (simp add: process_segments_def)
next
  case False
  from level_sizes_nonempty [OF assms False]
  obtain large ls where l: "level_sizes_of hl (concat pages) = large # ls"
    by (cases "level_sizes_of hl (concat pages)") auto
  show ?thesis unfolding process_segments_nonempty [OF False l] by simp
qed


text \<open>
  Claim C5, as amended. Take an input in which no line was accepted as title candidate.
  Whenever the classifier returns, the title is the cleaned text of the first line, in
  the order of the flattened input, whose font size is equal (\<open>==\<close>) to the first entry
  of the table of level sizes, and the empty string when there is no such line. The
  classifier returns whenever \<open>heading_levels\<close> is at least 0. When moreover no font
  size is a NaN, the first entry of the table is the largest font size of the input.
\<close>

theorem title_fallback_rule:
  assumes "\<not> list_ex (accepted_candidate heading_levels
                       (level_sizes_of heading_levels (concat pages))) (concat pages)"
  shows "(process_segments heading_levels pages = Inr out \<longrightarrow>
            o_title out
              = (case level_sizes_of heading_levels (concat pages) of
                   [] \<Rightarrow> []
                 | large_size # _ \<Rightarrow>
                     (case find (\<lambda>seg. float_eq (seg_size seg) large_size) (concat pages) of
                        None \<Rightarrow> []
                      | Some seg \<Rightarrow> clean_text (seg_text seg))))
         \<and> (0 \<le> heading_levels \<longrightarrow> (\<exists>result. process_segments heading_levels pages = Inr result))
         \<and> (0 \<le> heading_levels \<and> concat pages \<noteq> [] \<and> no_nan (concat pages) \<longrightarrow>
              level_sizes_of heading_levels (concat pages) \<noteq> []
              \<and> hd (level_sizes_of heading_levels (concat pages)) \<in> seg_size ` set (concat pages)
              \<and> (\<forall>seg\<in>set (concat pages).
                    float_le (seg_size seg) (hd (level_sizes_of heading_levels (concat pages)))))"
proof (intro conjI impI)
  assume "process_segments heading_levels pages = Inr out"
  with assms show "o_title out
              = (case level_sizes_of heading_levels (concat pages) of
                   [] \<Rightarrow> []
                 | large_size # _ \<Rightarrow>
                     (case find (\<lambda>seg. float_eq (seg_size seg) large_size) (concat pages) of
                        None \<Rightarrow> []
                      | Some seg \<Rightarrow> clean_text (seg_text seg)))"
    by (rule fallback_title)
next
  assume "0 \<le> heading_levels"
  then show "\<exists>result. process_segments heading_levels pages = Inr result"
    by (rule returns_for_nonnegative)
next
  assume a: "0 \<le> heading_levels \<and> concat pages \<noteq> [] \<and> no_nan (concat pages)"
  then show "level_sizes_of heading_levels (concat pages) \<noteq> []"
    by (intro level_sizes_nonempty) blast+
  from a have "hd (level_sizes_of heading_levels (concat pages)) \<in> seg_size ` set (concat pages)
         \<and> (\<forall>seg\<in>set (concat pages).
               float_le (seg_size seg) (hd (level_sizes_of heading_levels (concat pages))))"
    by (intro level_sizes_largest) blast+
  then show "hd (level_sizes_of heading_levels (concat pages)) \<in> seg_size ` set (concat pages)"
    and "\<forall>seg\<in>set (concat pages).
               float_le (seg_size seg) (hd (level_sizes_of heading_levels (concat pages)))"
    by blast+
qed

theorem title_fallback_rule_witness:
  "process_segments 3 [[(''body text'', 1, Fin 10, False)], [(''Big  Heading'', 2, Fin 20, False)]]
     = Inr \<lparr>o_title = ''Big Heading'',
            o_outline = [\<lparr>h_level = ''H1'', h_text = ''body text'', h_page = 1\<rparr>]\<rparr>
   \<and> level_sizes_of 3 [(''body text'', 1, Fin 10, False), (''Big  Heading'', 2, Fin 20, False)]
       = [Fin 20, Fin 10]
   \<and> o_title \<lparr>o_title = ''Big Heading'',
               o_outline = [\<lparr>h_level = ''H1'', h_text = ''body text'', h_page = 1\<rparr>]\<rparr>
       = clean_text (seg_text (''Big  Heading'', 2, Fin 20, False))
   \<and> float_le (Fin 10) (Fin 20) \<and> float_le (Fin 20) (Fin 20)"
proof -
  let ?P = "[[(''body text'', 1, Fin 10, False)], [(''Big  Heading'', 2, Fin 20, False)]]
              :: segment list list"
  let ?F = "[(''body text'', 1, Fin 10, False), (''Big  Heading'', 2, Fin 20, False)]
              :: segment list"
  let ?out = "\<lparr>o_title = ''Big Heading'',
               o_outline = [\<lparr>h_level = ''H1'', h_text = ''body text'', h_page = 1\<rparr>]\<rparr>"
  have c: "concat ?P = ?F" by simp
  have h2: "\<not> list_ex (accepted_candidate 3 (level_sizes_of 3 (concat ?P))) (concat ?P)"
    by code_simp
  have l: "level_sizes_of 3 ?F = [Fin 20, Fin 10]" by code_simp
  have f: "find (\<lambda>seg. float_eq (seg_size seg) (Fin 20)) ?F
             = Some (''Big  Heading'', 2, Fin 20, False)"
    by code_simp
  have p: "process_segments 3 ?P = Inr ?out" by code_simp
  have pre: "0 \<le> (3::int) \<and> ?F \<noteq> [] \<and> no_nan ?F" by code_simp
  note w = title_fallback_rule [OF h2, of ?out, unfolded c]
  from w [THEN conjunct1, THEN mp, OF p, unfolded l list.case f option.case]
  have t: "o_title ?out = clean_text (seg_text (''Big  Heading'', 2, Fin 20, False))" .
  from w [THEN conjunct2, THEN conjunct2, THEN mp, OF pre, THEN conjunct2, THEN conjunct2,
      unfolded l list.sel]
  have "\<forall>seg\<in>set ?F. float_le (seg_size seg) (Fin 20)" .
  then have "float_le (Fin 10) (Fin 20)" and "float_le (Fin 20) (Fin 20)"
    by (simp_all add: seg_size_def)
  with p l t show ?thesis by (intro conjI)
qed

text \<open>
  Claim C5 as stated does not hold. With \<open>heading_levels = -1\<close> no line is accepted and
  the fallback raises instead of returning a title. With a NaN among the sizes the first
  entry of the table need not be the largest size: here it is 1, not 2, and the title
  is the text of the line of size 1.
\<close>

theorem title_fallback_rule_counterexample:
  "\<not> list_ex (accepted_candidate (- 1) (level_sizes_of (- 1) [(''Summary'', 2, Fin 14, True)]))
        [(''Summary'', 2, Fin 14, True)]
   \<and> process_segments (- 1) [[(''Summary'', 2, Fin 14, True)]] = Inl IndexError
   \<and> level_sizes_of 3 [(''a'', 2, Fin 1, False), (''b'', 2, NaN 0, False), (''c'', 2, Fin 2, False)]
       = [Fin 1, NaN 0, Fin 2]
   \<and> \<not> list_ex (accepted_candidate 3 [Fin 1, NaN 0, Fin 2])
        [(''a'', 2, Fin 1, False), (''b'', 2, NaN 0, False), (''c'', 2, Fin 2, False)]
   \<and> process_segments 3 [[(''a'', 2, Fin 1, False), (''b'', 2, NaN 0, False),
                          (''c'', 2, Fin 2, False)]]
       = Inr \<lparr>o_title = ''a'',
              o_outline = [\<lparr>h_level = ''H1'', h_text = ''b'', h_page = 2\<rparr>,
                           \<lparr>h_level = ''H2'', h_text = ''c'', h_page = 2\<rparr>]\<rparr>
   \<and> float_lt (Fin 1) (Fin 2)"
  by code_simp

text \<open>
  Claim C10, as amended. Take a flattened input in which no font size is a NaN.
  Whenever the table of level sizes has a first entry, some line has exactly that size,
  so the list of candidates with the largest size is not empty. When moreover the input
  is not empty and \<open>heading_levels\<close> is at least 0, the table is not empty, its first
  entry is the largest font size of the input, the fallback yields the text of the first
  line with that size, and whenever the fallback runs the title is the cleaned text of
  that line.
\<close>

theorem largest_size_candidate_exists:
  "(no_nan (concat pages) \<longrightarrow>
      level_sizes_of heading_levels (concat pages) = []
      \<or> large_candidates (hd (level_sizes_of heading_levels (concat pages))) (concat pages) \<noteq> [])
   \<and> (0 \<le> heading_levels \<and> concat pages \<noteq> [] \<and> no_nan (concat pages) \<longrightarrow>
        level_sizes_of heading_levels (concat pages) \<noteq> []
        \<and> hd (level_sizes_of heading_levels (concat pages)) \<in> seg_size ` set (concat pages)
        \<and> (\<forall>seg\<in>set (concat pages).
              float_le (seg_size seg) (hd (level_sizes_of heading_levels (concat pages))))
        \<and> large_candidates (hd (level_sizes_of heading_levels (concat pages))) (concat pages) \<noteq> []
        \<and> title_fallback (level_sizes_of heading_levels (concat pages)) (concat pages)
            = Inr (hd (large_candidates (hd (level_sizes_of heading_levels (concat pages)))
                         (concat pages)))
        \<and> (title_candidate (scan heading_levels (level_sizes_of heading_levels (concat pages))
                               (concat pages)) = [] \<longrightarrow>
             (\<exists>out. process_segments heading_levels pages = Inr out
                \<and> o_title out
                    = clean_text (hd (large_candidates
                                        (hd (level_sizes_of heading_levels (concat pages)))
                                        (concat pages))))))"
proof (intro conjI impI)
  assume "no_nan (concat pages)"
  then show "level_sizes_of heading_levels (concat pages) = []
      \<or> large_candidates (hd (level_sizes_of heading_levels (concat pages))) (concat pages) \<noteq> []"
    using level_sizes_observed [of heading_levels "concat pages"] by blast
next
  assume a: "0 \<le> heading_levels \<and> concat pages \<noteq> [] \<and> no_nan (concat pages)"
  then have a1: "0 \<le> heading_levels" and a2: "concat pages \<noteq> []"
    and a3: "no_nan (concat pages)" by blast+
  let ?flat = "concat pages"
  let ?ls = "level_sizes_of heading_levels ?flat"
  have ne: "?ls \<noteq> []" using a1 a2 by (rule level_sizes_nonempty)
  then obtain large ls where l: "?ls = large # ls" by (cases ?ls) auto
  have big: "hd ?ls \<in> seg_size ` set ?flat
         \<and> (\<forall>seg\<in>set ?flat. float_le (seg_size seg) (hd ?ls))"
    using a1 a2 a3 by (rule level_sizes_largest)
  have c: "large_candidates (hd ?ls) ?flat \<noteq> []" using ne a3 by (rule level_sizes_observed)
  then obtain x xs where x: "large_candidates large ?flat = x # xs"
    unfolding l list.sel by (cases "large_candidates large ?flat") auto
  have f: "title_fallback ?ls ?flat = Inr (hd (large_candidates (hd ?ls) ?flat))"
    unfolding l by (simp only: title_fallback_def list.case x list.sel)
  have f': "(case find (\<lambda>seg. float_eq (seg_size seg) large) ?flat of
               None \<Rightarrow> [] | Some seg \<Rightarrow> seg_text seg)
              = hd (large_candidates large ?flat)"
    using f unfolding l title_fallback_Cons list.sel by (simp only: sum.inject)
  show "?ls \<noteq> []" by (rule ne)
  show "hd ?ls \<in> seg_size ` set ?flat" using big by (rule conjunct1)
  show "\<forall>seg\<in>set ?flat. float_le (seg_size seg) (hd ?ls)" using big by (rule conjunct2)
  show "large_candidates (hd ?ls) ?flat \<noteq> []" by (rule c)
  show "title_fallback ?ls ?flat = Inr (hd (large_candidates (hd ?ls) ?flat))" by (rule f)
  assume "title_candidate (scan heading_levels ?ls ?flat) = []"
  then show "\<exists>out. process_segments heading_levels pages = Inr out
           \<and> o_title out = clean_text (hd (large_candidates (hd ?ls) ?flat))"
    unfolding process_segments_nonempty [OF a2 l] l list.sel f' by simp
qed

theorem largest_size_candidate_exists_witness:
  "level_sizes_of 3 [(''body'', 2, Fin 10, False), (''Big'', 2, Fin 20, False),
                     (''Big two'', 3, Fin 20, False)] = [Fin 20, Fin 10]
   \<and> float_le (Fin 10) (Fin 20) \<and> float_le (Fin 20) (Fin 20)
   \<and> large_candidates (Fin 20) [(''body'', 2, Fin 10, False), (''Big'', 2, Fin 20, False),
                                 (''Big two'', 3, Fin 20, False)] = [''Big'', ''Big two'']
   \<and> title_candidate (scan 3 [Fin 20, Fin 10]
         [(''body'', 2, Fin 10, False), (''Big'', 2, Fin 20, False),
          (''Big two'', 3, Fin 20, False)]) = []
   \<and> process_segments 3 [[(''body'', 2, Fin 10, False), (''Big'', 2, Fin 20, False)],
                         [(''Big two'', 3, Fin 20, False)]]
       = Inr \<lparr>o_title = ''Big'',
              o_outline = [\<lparr>h_level = ''H1'', h_text = ''body'', h_page = 2\<rparr>]\<rparr>
   \<and> o_title \<lparr>o_title = ''Big'',
               o_outline = [\<lparr>h_level = ''H1'', h_text = ''body'', h_page = 2\<rparr>]\<rparr>
       = clean_text ''Big''"
proof -
  let ?P = "[[(''body'', 2, Fin 10, False), (''Big'', 2, Fin 20, False)],
             [(''Big two'', 3, Fin 20, False)]] :: segment list list"
  let ?F = "[(''body'', 2, Fin 10, False), (''Big'', 2, Fin 20, False),
             (''Big two'', 3, Fin 20, False)] :: segment list"
  let ?out = "\<lparr>o_title = ''Big'',
               o_outline = [\<lparr>h_level = ''H1'', h_text = ''body'', h_page = 2\<rparr>]\<rparr>"
  have c: "concat ?P = ?F" by simp
  have h: "0 \<le> (3::int) \<and> ?F \<noteq> [] \<and> no_nan ?F" by code_simp
  have l: "level_sizes_of 3 ?F = [Fin 20, Fin 10]" by code_simp
  have lc: "large_candidates (Fin 20) ?F = [''Big'', ''Big two'']" by code_simp
  have tc: "title_candidate (scan 3 [Fin 20, Fin 10] ?F) = []" by code_simp
  have p: "process_segments 3 ?P = Inr ?out" by code_simp
  note w = largest_size_candidate_exists [of ?P 3, unfolded c, THEN conjunct2, THEN mp, OF h,
      unfolded l list.sel lc]
  note w_max = w [THEN conjunct2, THEN conjunct2, THEN conjunct1]
  note w_run = w [THEN conjunct2, THEN conjunct2, THEN conjunct2, THEN conjunct2,
      THEN conjunct2, THEN mp, OF tc]
  from w_max have m: "float_le (Fin 10) (Fin 20)" "float_le (Fin 20) (Fin 20)"
    by (simp_all add: seg_size_def)
  from w_run obtain out where o: "process_segments 3 ?P = Inr out"
    and t: "o_title out = clean_text ''Big''"
    by (elim exE conjE)
  from o [unfolded p] have "out = ?out" by (simp only: sum.inject)
  with t have t': "o_title ?out = clean_text ''Big''"
    by (simp only:)
  from l m lc tc p t' show ?thesis by (intro conjI)
qed

text \<open>
  Claim C10 as stated does not hold. A NaN is unequal to itself: for a single line of
  NaN size the table is that size, no line is \<open>==\<close> to it, the list of candidates is
  empty and the title is the empty string of the \<open>else\<close> branch, on a non-empty input.
  With \<open>heading_levels = -1\<close> the table has no first entry and the fallback raises.
\<close>

theorem largest_size_candidate_exists_counterexample:
  "level_sizes_of 3 [(''Title'', 2, NaN 0, False)] = [NaN 0]
   \<and> large_candidates (NaN 0) [(''Title'', 2, NaN 0, False)] = []
   \<and> title_candidate (scan 3 [NaN 0] [(''Title'', 2, NaN 0, False)]) = []
   \<and> process_segments 3 [[(''Title'', 2, NaN 0, False)]] = Inr \<lparr>o_title = [], o_outline = []\<rparr>
   \<and> level_sizes_of (- 1) [(''Preface'', 3, Fin 11, False)] = []
   \<and> title_fallback [] [(''Preface'', 3, Fin 11, False)] = Inl IndexError"
  by code_simp

section \<open>Totality\<close>

text \<open>
  Claim C9, as amended. With at least 0 heading levels the classifier returns an
  outline for every input: any texts, pages, font sizes (negative ones and NaN too) and
  flags, empty pages, an empty input. It raises no error.
\<close>

theorem classifier_total:
  assumes "0 \<le> heading_levels"
  shows "\<exists>out. process_segments heading_levels pages = Inr out"
proof (cases "concat pages = []")
  case True
  then show ?thesis by (simp add: process_segments_def)
next
  case False
  from level_sizes_nonempty [OF assms False]
  obtain large ls where l: "level_sizes_of heading_levels (concat pages) = large # ls"
    by (cases "level_sizes_of heading_levels (concat pages)") auto
  show ?thesis unfolding process_segments_nonempty [OF False l] by simp
qed

theorem classifier_total_witness:
  "process_segments 3 [[(''x'', 1, Fin (- 5), False)], [], [(''y'', 2, Fin (- 7.5), True)]]
     = Inr \<lparr>o_title = ''x'',
            o_outline = [\<lparr>h_level = ''H1'', h_text = ''y'', h_page = 2\<rparr>]\<rparr>
   \<and> process_segments 0 [[(''1 Scope'', 7, Fin 11, False)]]
       = Inr \<lparr>o_title = ''1 Scope'', o_outline = []\<rparr>
   \<and> process_segments 3 [[(''x'', 1, NaN 0, False), (''y'', 1, PInf, False)]]
       = Inr \<lparr>o_title = ''x'',
              o_outline = [\<lparr>h_level = ''H1'', h_text = ''y'', h_page = 1\<rparr>]\<rparr>"
proof -
  have h: "0 \<le> (3::int)" by simp
  have p: "process_segments 3 [[(''x'', 1, Fin (- 5), False)], [], [(''y'', 2, Fin (- 7.5), True)]]
     = Inr \<lparr>o_title = ''x'',
            o_outline = [\<lparr>h_level = ''H1'', h_text = ''y'', h_page = 2\<rparr>]\<rparr>" by code_simp
  have q: "process_segments 0 [[(''1 Scope'', 7, Fin 11, False)]]
     = Inr \<lparr>o_title = ''1 Scope'', o_outline = []\<rparr>" by code_simp
  have r: "process_segments 3 [[(''x'', 1, NaN 0, False), (''y'', 1, PInf, False)]]
       = Inr \<lparr>o_title = ''x'',
              o_outline = [\<lparr>h_level = ''H1'', h_text = ''y'', h_page = 1\<rparr>]\<rparr>" by code_simp
  from classifier_total [OF h, of "[[(''x'', 1, Fin (- 5), False)], [], [(''y'', 2, Fin (- 7.5), True)]]"]
    p q r
  show ?thesis by (intro conjI)
qed

text \<open>
  Claim C9 as stated does not hold for every number of heading levels: with
  \<open>heading_levels = -1\<close> the table of level sizes is empty, no line is a title candidate,
  and the fallback reads \<open>level_sizes[0]\<close>.
\<close>

theorem classifier_total_counterexample:
  "process_segments (- 1) [[(''Introduction'', 1, Fin 12, False)]] = Inl IndexError"
  by code_simp

section \<open>The title candidate\<close>

lemma process_segments_title:
  assumes "process_segments hl pages = Inr out"
    and "title_candidate (scan hl (level_sizes_of hl (concat pages)) (concat pages)) \<noteq> []"
  shows "o_title out
     = clean_text (title_candidate (scan hl (level_sizes_of hl (concat pages)) (concat pages)))"
proof -
  define flat where "flat = concat pages"
  have ne: "flat \<noteq> []"
  proof
    assume "flat = []"
    then have "title_candidate (scan hl (level_sizes_of hl flat) flat) = []"
      by (simp add: scan_def)
    with assms(2) show False unfolding flat_def by simp
  qed
  have "process_segments hl pages
     = (if flat = [] then Inr \<lparr>o_title = [], o_outline = []\<rparr>
        else (case (if title_candidate (scan hl (level_sizes_of hl flat) flat) = []
                    then title_fallback (level_sizes_of hl flat) flat
                    else Inr (title_candidate (scan hl (level_sizes_of hl flat) flat))) of
                Inl e \<Rightarrow> Inl e
              | Inr t \<Rightarrow> Inr \<lparr>o_title = clean_text t,
                              o_outline = deduplicate (headings (scan hl (level_sizes_of hl flat) flat))\<rparr>))"
    unfolding process_segments_def Let_def flat_def by (rule refl)
  with ne assms show ?thesis unfolding flat_def [symmetric] by auto
qed

text \<open>
  Claim C2, as amended. A line of resolved level 0 is accepted as title candidate only
  if its page number is at most 1 and it is bold, or its text is upper case, or it has
  fewer than 15 words. For every input the title candidate after the pass is the text
  of the first accepted line whose text is not empty, and it is empty when there is
  none; accepted lines after that one do not change it. A title candidate that is not
  empty is, cleaned, the title returned.
\<close>

theorem title_candidate_first_nonempty:
  "title_candidate (scan heading_levels level_sizes flattened)
     = (case find (\<lambda>seg. accepted_candidate heading_levels level_sizes seg \<and> seg_text seg \<noteq> [])
               flattened of
          None \<Rightarrow> []
        | Some seg \<Rightarrow> seg_text seg)
   \<and> (accepted_candidate heading_levels level_sizes (t, p, sz, b) \<longleftrightarrow>
        resolve_level heading_levels level_sizes (t, p, sz, b) = 0
        \<and> p \<le> 1 \<and> (b \<or> isupper t \<or> length (split_ws t) < 15))
   \<and> (process_segments heading_levels pages = Inr out
        \<and> title_candidate (scan heading_levels (level_sizes_of heading_levels (concat pages))
                              (concat pages)) \<noteq> [] \<longrightarrow>
        o_title out
          = clean_text (title_candidate (scan heading_levels
                          (level_sizes_of heading_levels (concat pages)) (concat pages))))"
proof -
  have "accepted_candidate heading_levels level_sizes (t, p, sz, b) \<longleftrightarrow>
        resolve_level heading_levels level_sizes (t, p, sz, b) = 0
        \<and> p \<le> 1 \<and> (b \<or> isupper t \<or> length (split_ws t) < 15)"
    by (simp add: accepted_candidate_def title_accepted_def)
  with scan_title_candidate [of heading_levels level_sizes flattened]
    process_segments_title [of heading_levels pages out]
  show ?thesis by blast
qed

theorem title_candidate_first_nonempty_witness:
  "accepted_candidate 3 [Fin 20, Fin 12] (''Project Proposal'', 1, Fin 20, True)
   \<and> \<not> accepted_candidate 3 [Fin 20, Fin 12]
         (''a b c d e f g h i j k l m n o'', 1, Fin 20, False)
   \<and> \<not> accepted_candidate 3 [Fin 20, Fin 12] (''Late Title'', 2, Fin 20, True)
   \<and> title_candidate (scan 3 [Fin 20, Fin 12]
        [(''Late Title'', 2, Fin 20, True), (''a b c d e f g h i j k l m n o'', 1, Fin 20, False),
         (''Project  Proposal'', 1, Fin 20, True), (''Second Title'', 1, Fin 20, True),
         (''body'', 1, Fin 12, False)]) = ''Project  Proposal''
   \<and> process_segments 3
        [[(''Late Title'', 2, Fin 20, True), (''a b c d e f g h i j k l m n o'', 1, Fin 20, False),
          (''Project  Proposal'', 1, Fin 20, True), (''Second Title'', 1, Fin 20, True),
          (''body'', 1, Fin 12, False)]]
       = Inr \<lparr>o_title = ''Project Proposal'',
              o_outline = [\<lparr>h_level = ''H1'', h_text = ''body'', h_page = 1\<rparr>]\<rparr>
   \<and> o_title \<lparr>o_title = ''Project Proposal'',
               o_outline = [\<lparr>h_level = ''H1'', h_text = ''body'', h_page = 1\<rparr>]\<rparr>
       = clean_text ''Project  Proposal''"
proof -
  let ?F = "[(''Late Title'', 2, Fin 20, True), (''a b c d e f g h i j k l m n o'', 1, Fin 20, False),
         (''Project  Proposal'', 1, Fin 20, True), (''Second Title'', 1, Fin 20, True),
         (''body'', 1, Fin 12, False)] :: segment list"
  let ?out = "\<lparr>o_title = ''Project Proposal'',
               o_outline = [\<lparr>h_level = ''H1'', h_text = ''body'', h_page = 1\<rparr>]\<rparr>"
  have a1: "accepted_candidate 3 [Fin 20, Fin 12] (''Project Proposal'', 1, Fin 20, True)" by code_simp
  have a2: "\<not> accepted_candidate 3 [Fin 20, Fin 12] (''a b c d e f g h i j k l m n o'', 1, Fin 20, False)"
    by code_simp
  have a3: "\<not> accepted_candidate 3 [Fin 20, Fin 12] (''Late Title'', 2, Fin 20, True)" by code_simp
  have f: "find (\<lambda>seg. accepted_candidate 3 [Fin 20, Fin 12] seg \<and> seg_text seg \<noteq> []) ?F
             = Some (''Project  Proposal'', 1, Fin 20, True)"
    by code_simp
  have l: "level_sizes_of 3 ?F = [Fin 20, Fin 12]" by code_simp
  have c: "concat [?F] = ?F" by simp
  have p: "process_segments 3 [?F] = Inr ?out" by code_simp
  note w = title_candidate_first_nonempty [of 3 "[Fin 20, Fin 12]" ?F _ _ _ _ "[?F]" ?out]
  from w [THEN conjunct1]
  have t: "title_candidate (scan 3 [Fin 20, Fin 12] ?F) = ''Project  Proposal''"
    unfolding f by (simp add: seg_text_def)
  have ne: "title_candidate (scan 3 [Fin 20, Fin 12] ?F) \<noteq> []" unfolding t by simp
  from w [THEN conjunct2, THEN conjunct2, unfolded c l, THEN mp, OF conjI, OF p ne]
  have o: "o_title ?out = clean_text ''Project  Proposal''" unfolding t .
  from a1 a2 a3 t p o show ?thesis by (intro conjI)
qed

text \<open>
  Claim C2 as stated does not hold: \<open>title_candidate = title_candidate or text\<close> keeps
  the candidate unset when the accepted text is empty, so the first accepted line is
  not always the one that wins. Here the first accepted line has the empty text and the
  second accepted line becomes the title.
\<close>

theorem first_candidate_counterexample:
  "level_sizes_of 3 [('''', 1, Fin 20, False), (''Annual Report'', 1, Fin 20, False)] = [Fin 20]
   \<and> find (accepted_candidate 3 [Fin 20]) [('''', 1, Fin 20, False), (''Annual Report'', 1, Fin 20, False)]
       = Some ('''', 1, Fin 20, False)
   \<and> accepted_candidate 3 [Fin 20] (''Annual Report'', 1, Fin 20, False)
   \<and> title_candidate (scan 3 [Fin 20] [('''', 1, Fin 20, False), (''Annual Report'', 1, Fin 20, False)])
       = ''Annual Report''
   \<and> process_segments 3 [[('''', 1, Fin 20, False), (''Annual Report'', 1, Fin 20, False)]]
       = Inr \<lparr>o_title = ''Annual Report'', o_outline = []\<rparr>"
  by code_simp

end
